theory Spec2Isabelle
  imports Complex_Main "HOL-Library.Sublist" "HOL-Library.Multiset"
begin

section \<open>JavaScript values and containers\<close>

text \<open>
  The statuses the site checker handles are JavaScript values: the booleans, the strings
  \<^verbatim>\<open>'certificate-error'\<close> and \<^verbatim>\<open>'no-https'\<close>, \<^verbatim>\<open>null\<close> (returned by
  \<^verbatim>\<open>getCachedStatus\<close> when there is no valid entry) and \<^verbatim>\<open>undefined\<close> (what
  \<^verbatim>\<open>Map.prototype.get\<close> returns for a missing key). Strings are byte lists (UTF-8).
\<close>

datatype jsval = JBool bool | JStr string | JNull | JUndefined

text \<open>
  A JavaScript \<^verbatim>\<open>Map\<close> keeps its entries in insertion order with unique keys. It is
  modelled as an association list: \<^verbatim>\<open>set\<close> overwrites the value of an existing key in
  place and appends a new key at the end, \<^verbatim>\<open>delete\<close> removes the key, \<^verbatim>\<open>get\<close> and
  \<^verbatim>\<open>has\<close> are \<^const>\<open>map_of\<close>, \<^verbatim>\<open>size\<close> is \<^const>\<open>length\<close>.
\<close>

type_synonym ('k, 'v) jsmap = "('k \<times> 'v) list"

definition map_keys :: "('k, 'v) jsmap \<Rightarrow> 'k list" where
  "map_keys m = map fst m"

fun map_set :: "('k, 'v) jsmap \<Rightarrow> 'k \<Rightarrow> 'v \<Rightarrow> ('k, 'v) jsmap" where
  "map_set [] k v = [(k, v)]"
| "map_set ((k', v') # m) k v = (if k' = k then (k, v) # m else (k', v') # map_set m k v)"

definition map_delete :: "('k, 'v) jsmap \<Rightarrow> 'k \<Rightarrow> ('k, 'v) jsmap" where
  "map_delete m k = filter (\<lambda>e. fst e \<noteq> k) m"

text \<open>The representation invariant of a \<^verbatim>\<open>Map\<close>: no key occurs twice.\<close>

definition is_Map :: "('k, 'v) jsmap \<Rightarrow> bool" where
  "is_Map m = distinct (map fst m)"

subsection \<open>String operations\<close>

text \<open>
  \<^verbatim>\<open>startsWith\<close>, \<^verbatim>\<open>endsWith\<close>, \<^verbatim>\<open>includes\<close> and \<^verbatim>\<open>split\<close> with a
  one-character separator. All patterns used in the sources are ASCII, so working on the
  UTF-8 bytes gives the same answers as working on UTF-16 code units.
\<close>

definition startsWith :: "string \<Rightarrow> string \<Rightarrow> bool" where
  "startsWith s p = prefix p s"

definition endsWith :: "string \<Rightarrow> string \<Rightarrow> bool" where
  "endsWith s p = suffix p s"

fun str_includes :: "string \<Rightarrow> string \<Rightarrow> bool" where
  "str_includes [] p = (p = [])"
| "str_includes (c # s) p = (prefix p (c # s) \<or> str_includes s p)"

fun split_on :: "char \<Rightarrow> string \<Rightarrow> string list" where
  "split_on sep [] = [[]]"
| "split_on sep (c # s) =
     (if c = sep then [] # split_on sep s
      else (c # hd (split_on sep s)) # tl (split_on sep s))"

definition is_digit :: "char \<Rightarrow> bool" where
  "is_digit c = (48 \<le> (of_char c :: nat) \<and> (of_char c :: nat) \<le> 57)"

definition digit_val :: "char \<Rightarrow> int" where
  "digit_val c = int (of_char c) - 48"

definition decimal :: "string \<Rightarrow> int" where
  "decimal ds = foldl (\<lambda>a c. 10 * a + digit_val c) 0 ds"

text \<open>
  The characters that \<^verbatim>\<open>parseInt\<close> skips at the start of its input (ECMAScript's
  StrWhiteSpaceChar: white space and line terminators), each as its UTF-8 bytes.
\<close>

definition StrWhiteSpaceChar :: "string list" where
  "StrWhiteSpaceChar =
     [[CHR 0x09], [CHR 0x0A], [CHR 0x0B], [CHR 0x0C], [CHR 0x0D], [CHR 0x20],
      [CHR 0xC2, CHR 0xA0], [CHR 0xE1, CHR 0x9A, CHR 0x80],
      [CHR 0xE2, CHR 0x80, CHR 0x80], [CHR 0xE2, CHR 0x80, CHR 0x81],
      [CHR 0xE2, CHR 0x80, CHR 0x82], [CHR 0xE2, CHR 0x80, CHR 0x83],
      [CHR 0xE2, CHR 0x80, CHR 0x84], [CHR 0xE2, CHR 0x80, CHR 0x85],
      [CHR 0xE2, CHR 0x80, CHR 0x86], [CHR 0xE2, CHR 0x80, CHR 0x87],
      [CHR 0xE2, CHR 0x80, CHR 0x88], [CHR 0xE2, CHR 0x80, CHR 0x89],
      [CHR 0xE2, CHR 0x80, CHR 0x8A], [CHR 0xE2, CHR 0x80, CHR 0xA8],
      [CHR 0xE2, CHR 0x80, CHR 0xA9], [CHR 0xE2, CHR 0x80, CHR 0xAF],
      [CHR 0xE2, CHR 0x81, CHR 0x9F], [CHR 0xE3, CHR 0x80, CHR 0x80],
      [CHR 0xEF, CHR 0xBB, CHR 0xBF]]"

definition ws_len :: "string \<Rightarrow> nat" where
  "ws_len s = (case filter (\<lambda>w. prefix w s) StrWhiteSpaceChar of [] \<Rightarrow> 0 | w # _ \<Rightarrow> length w)"

function trimStart :: "string \<Rightarrow> string" where
  "trimStart s = (if ws_len s = 0 \<or> s = [] then s else trimStart (drop (ws_len s) s))"
  by pat_completeness auto
termination
  by (relation "measure length") auto

declare trimStart.simps [simp del]

text \<open>
  \<^verbatim>\<open>parseInt(s, 10)\<close>: leading white space is skipped, one sign is read, then the longest
  run of decimal digits; \<^verbatim>\<open>NaN\<close> (here \<^const>\<open>None\<close>) when that run is empty. The result
  is kept exact; the sources only compare it with 16 and 31, and rounding a larger
  integer to a double does not change those comparisons.
\<close>

definition parseInt10 :: "string \<Rightarrow> int option" where
  "parseInt10 s =
     (let S = trimStart s;
          sign = (if startsWith S ''-'' then - 1 else 1 :: int);
          S1 = (if startsWith S ''-'' \<or> startsWith S ''+'' then tl S else S);
          Z = takeWhile is_digit S1
      in if Z = [] then None else Some (sign * decimal Z))"

section \<open>The site checker of js/modules/siteChecker.js\<close>

subsection \<open>State and configuration\<close>

text \<open>
  The two maps of the \<^verbatim>\<open>SiteChecker\<close> instance. Timestamps are the integers that
  \<^verbatim>\<open>Date.now()\<close> returns (milliseconds); every function that reads the clock takes the
  reading as the argument \<open>now\<close>.
\<close>

record site_checker =
  siteStatus :: "(string, jsval) jsmap"
  checkTimes :: "(string, int) jsmap"

definition new_SiteChecker :: site_checker where
  "new_SiteChecker = \<lparr>siteStatus = [], checkTimes = []\<rparr>"

definition CACHE_DURATION_SUCCESS :: int where
  "CACHE_DURATION_SUCCESS = 24 * 60 * 60 * 1000"

definition CACHE_DURATION_FAILURE :: int where
  "CACHE_DURATION_FAILURE = 1 * 60 * 60 * 1000"

definition CACHE_DURATION_CERT_ERROR :: int where
  "CACHE_DURATION_CERT_ERROR = 12 * 60 * 60 * 1000"

definition CACHE_DURATION_NO_HTTPS :: int where
  "CACHE_DURATION_NO_HTTPS = 12 * 60 * 60 * 1000"

definition TIMEOUT :: nat where
  "TIMEOUT = 5000"

definition MAX_CACHE_SIZE :: nat where
  "MAX_CACHE_SIZE = 500"

definition TOTAL_CHECK_TIMEOUT :: nat where
  "TOTAL_CHECK_TIMEOUT = 5000"

subsection \<open>Cache durations and validity\<close>

definition getCacheDuration :: "jsval \<Rightarrow> int" where
  "getCacheDuration status =
     (if status = JBool True then CACHE_DURATION_SUCCESS
      else if status = JStr ''certificate-error'' then CACHE_DURATION_CERT_ERROR
      else if status = JStr ''no-https'' then CACHE_DURATION_NO_HTTPS
      else CACHE_DURATION_FAILURE)"

text \<open>\<^verbatim>\<open>this.siteStatus.get(hostname)\<close>: \<^verbatim>\<open>undefined\<close> for a missing key.\<close>

definition status_of :: "site_checker \<Rightarrow> string \<Rightarrow> jsval" where
  "status_of c hostname =
     (case map_of (siteStatus c) hostname of None \<Rightarrow> JUndefined | Some s \<Rightarrow> s)"

definition shouldRecheck :: "site_checker \<Rightarrow> int \<Rightarrow> string \<Rightarrow> bool" where
  "shouldRecheck c now hostname =
     (case map_of (checkTimes c) hostname of
        None \<Rightarrow> True
      | Some lastCheck \<Rightarrow> now - lastCheck > getCacheDuration (status_of c hostname))"

definition isCacheValid :: "site_checker \<Rightarrow> int \<Rightarrow> string \<Rightarrow> bool" where
  "isCacheValid c now hostname =
     (case map_of (checkTimes c) hostname of
        None \<Rightarrow> False
      | Some lastCheck \<Rightarrow> now - lastCheck \<le> getCacheDuration (status_of c hostname))"

definition getCachedStatus :: "site_checker \<Rightarrow> int \<Rightarrow> string \<Rightarrow> jsval" where
  "getCachedStatus c now hostname =
     (if isCacheValid c now hostname then status_of c hostname else JNull)"

subsection \<open>Updating, cleaning and limiting the cache\<close>

text \<open>Both maps lose the hostname: the body of the two \<^verbatim>\<open>forEach\<close> deletions.\<close>

definition delete_host :: "string \<Rightarrow> site_checker \<Rightarrow> site_checker" where
  "delete_host hostname c =
     c\<lparr>siteStatus := map_delete (siteStatus c) hostname,
       checkTimes := map_delete (checkTimes c) hostname\<rparr>"

text \<open>
  \<^verbatim>\<open>Math.ceil(this.MAX_CACHE_SIZE * 0.2)\<close>. The product is computed exactly here; the
  double-precision product \<^verbatim>\<open>500 * 0.2\<close> is exactly 100 as well.
\<close>

definition removeCount :: nat where
  "removeCount = nat \<lceil>(of_nat MAX_CACHE_SIZE :: rat) * 0.2\<rceil>"

text \<open>
  \<^verbatim>\<open>entries.sort((a, b) => a[1] - b[1])\<close> is a stable ascending sort on the timestamp,
  as is \<^const>\<open>sort_key\<close>; \<^verbatim>\<open>slice(0, removeCount)\<close> is \<^const>\<open>take\<close>.
\<close>

definition limitCacheSize :: "site_checker \<Rightarrow> site_checker" where
  "limitCacheSize c =
     (let entries = sort_key snd (checkTimes c);
          toRemove = take removeCount entries
      in fold delete_host (map fst toRemove) c)"

definition updateCache :: "site_checker \<Rightarrow> string \<Rightarrow> jsval \<Rightarrow> int \<Rightarrow> site_checker" where
  "updateCache c hostname status now =
     (let c1 = (if length (siteStatus c) \<ge> MAX_CACHE_SIZE then limitCacheSize c else c)
      in c1\<lparr>siteStatus := map_set (siteStatus c1) hostname status,
            checkTimes := map_set (checkTimes c1) hostname now\<rparr>)"

definition cleanupCache :: "site_checker \<Rightarrow> int \<Rightarrow> site_checker" where
  "cleanupCache c now =
     (let expiredHosts =
            map fst (filter (\<lambda>(hostname, timestamp).
                       now - timestamp > getCacheDuration (status_of c hostname))
                     (checkTimes c))
      in fold delete_host expiredHosts c)"

text \<open>A sequence of \<^verbatim>\<open>updateCache\<close> calls, each with its clock reading.\<close>

fun run_updates :: "(string \<times> jsval \<times> int) list \<Rightarrow> site_checker \<Rightarrow> site_checker" where
  "run_updates [] c = c"
| "run_updates ((hostname, status, now) # ops) c = run_updates ops (updateCache c hostname status now)"

subsection \<open>Local addresses\<close>

text \<open>
  \<^verbatim>\<open>secondPart >= 16 && secondPart <= 31\<close> is false when \<^verbatim>\<open>parseInt\<close> gave
  \<^verbatim>\<open>NaN\<close>. \<^verbatim>\<open>parts[1]\<close> is read only when \<^verbatim>\<open>parts.length >= 2\<close>.
\<close>

definition isLocalNetwork :: "string \<Rightarrow> bool" where
  "isLocalNetwork hostname =
     (if hostname = ''localhost'' \<or> hostname = ''127.0.0.1'' \<or>
         startsWith hostname ''192.168.'' \<or> startsWith hostname ''10.'' \<or>
         endsWith hostname ''.local''
      then True
      else if startsWith hostname ''172.'' then
        (let parts = split_on CHR ''.'' hostname
         in if length parts \<ge> 2 then
              (case parseInt10 (parts ! 1) of
                 None \<Rightarrow> False
               | Some secondPart \<Rightarrow> secondPart \<ge> 16 \<and> secondPart \<le> 31)
            else False)
      else False)"

subsection \<open>Probing a host\<close>

text \<open>
  The network is a parameter. \<open>fetch_head url\<close> is the outcome of the
  \<^verbatim>\<open>fetch(url, {method: 'HEAD', ...})\<close> call of \<^verbatim>\<open>tryHeadRequest\<close> (a rejection
  covers the abort after \<^const>\<open>TIMEOUT\<close> ms); \<open>image_probe hostname\<close> is the
  outcome of \<^verbatim>\<open>checkDomainExists\<close>: \<open>Inr True\<close> when the image's load or error event
  fired within 2000 ms, \<open>Inr False\<close> when its timer fired first, \<open>Inl e\<close> when
  constructing the image threw; \<open>timeout_first\<close> tells whether the timeout promise of
  \<^verbatim>\<open>checkSite\<close>, armed with \<^const>\<open>TOTAL_CHECK_TIMEOUT\<close> ms, settled before the
  availability check did.
\<close>

record js_error =
  err_name :: string
  err_message :: string

datatype fetch_result = Fulfilled | Rejected js_error

datatype probe = Head string | Img string

record network =
  fetch_head :: "string \<Rightarrow> fetch_result"
  image_probe :: "string \<Rightarrow> js_error + bool"
  timeout_first :: bool

definition tryHeadRequest :: "network \<Rightarrow> string \<Rightarrow> js_error + bool" where
  "tryHeadRequest net url =
     (case fetch_head net url of Fulfilled \<Rightarrow> Inr True | Rejected error \<Rightarrow> Inl error)"

definition checkDomainExists :: "network \<Rightarrow> string \<Rightarrow> js_error + bool" where
  "checkDomainExists net hostname = image_probe net hostname"

text \<open>
  The two \<^verbatim>\<open>for\<close> loops of \<^verbatim>\<open>checkAvailability\<close>. Each returns whether a request
  succeeded, the last error caught so far, and the requests it issued.
\<close>

fun try_urls :: "network \<Rightarrow> string list \<Rightarrow> js_error option \<Rightarrow> bool \<times> js_error option \<times> probe list" where
  "try_urls net [] lastError = (False, lastError, [])"
| "try_urls net (url # urls) lastError =
     (case tryHeadRequest net url of
        Inr available \<Rightarrow>
          if available then (True, lastError, [Head url])
          else (case try_urls net urls lastError of (found, e, ps) \<Rightarrow> (found, e, Head url # ps))
      | Inl error \<Rightarrow>
          (case try_urls net urls (Some error) of (found, e, ps) \<Rightarrow> (found, e, Head url # ps)))"

definition checkAvailability :: "network \<Rightarrow> string \<Rightarrow> (js_error + jsval) \<times> probe list" where
  "checkAvailability net hostname =
     (let httpsUrls = [''https://'' @ hostname @ ''/favicon.ico'',
                       ''https://'' @ hostname @ ''/robots.txt'',
                       ''https://'' @ hostname];
          httpUrls = [''http://'' @ hostname @ ''/favicon.ico'',
                      ''http://'' @ hostname @ ''/robots.txt'',
                      ''http://'' @ hostname]
      in case try_urls net httpsUrls None of
           (True, _, ps1) \<Rightarrow> (Inr (JBool True), ps1)
         | (False, httpsError, ps1) \<Rightarrow>
             (case try_urls net httpUrls None of
                (True, _, ps2) \<Rightarrow> (Inr (JStr ''no-https''), ps1 @ ps2)
              | (False, _, ps2) \<Rightarrow>
                  (case checkDomainExists net hostname of
                     Inl error \<Rightarrow> (Inl error, ps1 @ ps2 @ [Img hostname])
                   | Inr domainExists \<Rightarrow>
                       (if domainExists \<and>
                           (case httpsError of
                              None \<Rightarrow> False
                            | Some e \<Rightarrow> err_name e = ''TypeError'' \<and>
                                        str_includes (err_message e) ''Failed to fetch'')
                        then (Inr (JStr ''certificate-error''), ps1 @ ps2 @ [Img hostname])
                        else (Inr (JBool False), ps1 @ ps2 @ [Img hostname])))))"

subsection \<open>checkSite\<close>

text \<open>
  \<^verbatim>\<open>checkSite\<close> reads the clock twice: \<open>now1\<close> is the reading taken by
  \<^verbatim>\<open>shouldRecheck\<close>, \<open>now2\<close> the next one (taken by \<^verbatim>\<open>isCacheValid\<close> on the cache
  path, by \<^verbatim>\<open>updateCache\<close> after the awaited race). \<open>c\<close> is the checker when the call
  starts and \<open>c_resumed\<close> the checker when the awaited race settles (other checks of the
  same batch may have updated the cache meanwhile). The result is the value the promise
  resolves to, the checker afterwards, and the requests issued by the call.
\<close>

definition checkSite ::
  "site_checker \<Rightarrow> site_checker \<Rightarrow> network \<Rightarrow> int \<Rightarrow> int \<Rightarrow> string
     \<Rightarrow> jsval \<times> site_checker \<times> probe list" where
  "checkSite c c_resumed net now1 now2 hostname =
     (if isLocalNetwork hostname then (JBool True, c, [])
      else if \<not> shouldRecheck c now1 hostname then (getCachedStatus c now2 hostname, c, [])
      else
        (case checkAvailability net hostname of
           (outcome, probes) \<Rightarrow>
             (case (if timeout_first net
                    then Inl \<lparr>err_name = ''Error'', err_message = ''Check timeout''\<rparr>
                    else outcome) of
                Inr status \<Rightarrow> (status, updateCache c_resumed hostname status now2, probes)
              | Inl error \<Rightarrow>
                  (JBool False, updateCache c_resumed hostname (JBool False) now2, probes))))"

subsection \<open>Notions used to state the cache properties\<close>

text \<open>
  What holds of the cache between any two calls: both maps are well-formed, they hold
  the same hostnames, and the size bound is respected.
\<close>

definition cache_inv :: "site_checker \<Rightarrow> bool" where
  "cache_inv c =
     (is_Map (siteStatus c) \<and> is_Map (checkTimes c) \<and>
      set (map_keys (siteStatus c)) = set (map_keys (checkTimes c)) \<and>
      length (siteStatus c) \<le> MAX_CACHE_SIZE)"

text \<open>
  The entries \<^verbatim>\<open>limitCacheSize\<close> selects for removal: the first \<^const>\<open>removeCount\<close>
  entries of the check times in ascending order of timestamp.
\<close>

definition oldest_entries :: "site_checker \<Rightarrow> (string \<times> int) list" where
  "oldest_entries c = take removeCount (sort_key snd (checkTimes c))"

text \<open>A cache filled to its maximum size: 500 hosts, checked at the times 0 to 499.\<close>

definition full_cache :: site_checker where
  "full_cache =
     \<lparr>siteStatus = map (\<lambda>i. (replicate (Suc i) CHR ''a'', JBool True)) [0..<500],
      checkTimes = map (\<lambda>i. (replicate (Suc i) CHR ''a'', int i)) [0..<500]\<rparr>"


section \<open>Bookmark nodes and the order store\<close>

subsection \<open>Bookmark tree nodes\<close>

text \<open>
  A node of the tree returned by \<^verbatim>\<open>chrome.bookmarks.getTree\<close>: its id, its title, its
  \<^verbatim>\<open>url\<close> (absent on folders) and its \<^verbatim>\<open>children\<close> (absent on bookmarks).
\<close>

datatype node =
  Node (node_id: string) (title: string) (url: "string option") (children: "node list option")

text \<open>
  \<^verbatim>\<open>if (bookmark.url)\<close>: the property is present and not the empty string.
  \<^verbatim>\<open>if (child.children)\<close>: the property is present (an empty array is truthy too).
\<close>

definition has_url :: "node \<Rightarrow> bool" where
  "has_url bookmark = (case url bookmark of None \<Rightarrow> False | Some u \<Rightarrow> u \<noteq> [])"

definition has_children :: "node \<Rightarrow> bool" where
  "has_children bookmark = (children bookmark \<noteq> None)"

subsection \<open>A plain object used as a dictionary\<close>

text \<open>
  \<^verbatim>\<open>renderOrderedBookmarks\<close> keeps the bookmarks in a plain object keyed by id. The own
  properties of the object are modelled as an association list in order of creation:
  assignment is \<^const>\<open>map_set\<close>, \<^verbatim>\<open>delete\<close> is \<^const>\<open>map_delete\<close>. \<^verbatim>\<open>Object.values\<close>
  lists the values in the order of the own property keys: first the keys that are array
  indices (canonical decimal strings below \<open>2\<^sup>3\<^sup>2 - 1\<close>) in ascending numeric order, then
  the other string keys in order of creation.

  Only own properties are modelled. A key that names a property inherited from
  \<^verbatim>\<open>Object.prototype\<close> (listed in \<open>Object_prototype_keys\<close>) reads as a truthy value
  although no bookmark was stored under it; the properties below exclude such ids, which
  the bookmarks API never produces (its ids are decimal strings).
\<close>

definition is_array_index :: "string \<Rightarrow> bool" where
  "is_array_index k =
     (k \<noteq> [] \<and> list_all is_digit k \<and> (k = ''0'' \<or> hd k \<noteq> CHR ''0'') \<and>
      decimal k < 2 ^ 32 - 1)"

definition own_property_order :: "(string, 'v) jsmap \<Rightarrow> (string, 'v) jsmap" where
  "own_property_order obj =
     sort_key (\<lambda>e. decimal (fst e)) (filter (\<lambda>e. is_array_index (fst e)) obj) @
     filter (\<lambda>e. \<not> is_array_index (fst e)) obj"

definition Object_values :: "(string, 'v) jsmap \<Rightarrow> 'v list" where
  "Object_values obj = map snd (own_property_order obj)"

definition Object_prototype_keys :: "string list" where
  "Object_prototype_keys =
     [''constructor'', ''__defineGetter__'', ''__defineSetter__'', ''hasOwnProperty'',
      ''__lookupGetter__'', ''__lookupSetter__'', ''isPrototypeOf'', ''propertyIsEnumerable'',
      ''toString'', ''valueOf'', ''__proto__'', ''toLocaleString'']"

subsection \<open>renderOrderedBookmarks (ColumnManager.js)\<close>

text \<open>
  The container is the list of bookmarks for which an item has been created and appended,
  in order of appending. The three loops of the source are three folds.
\<close>

definition renderOrderedBookmarks :: "node list \<Rightarrow> node list \<Rightarrow> string list \<Rightarrow> node list" where
  "renderOrderedBookmarks bookmarks container savedOrder =
     (let bookmarkMap =
            fold (\<lambda>bookmark m. if has_url bookmark then map_set m (node_id bookmark) bookmark else m)
              bookmarks [];
          (container1, bookmarkMap1) =
            fold (\<lambda>bookmarkId (cont, m).
                    case map_of m bookmarkId of
                      Some bookmark \<Rightarrow> (cont @ [bookmark], map_delete m bookmarkId)
                    | None \<Rightarrow> (cont, m))
              savedOrder (container, bookmarkMap)
      in fold (\<lambda>bookmark cont. cont @ [bookmark]) (Object_values bookmarkMap1) container1)"

text \<open>
  The order the claim describes, written from the claim's words: the live bookmarks with a
  URL whose id is in the saved order, in the sequence of the saved order (each id once),
  then the remaining ones in their live order.
\<close>

primrec first_occurrences :: "'a list \<Rightarrow> 'a list" where
  "first_occurrences [] = []"
| "first_occurrences (x # xs) = x # filter (\<lambda>y. y \<noteq> x) (first_occurrences xs)"

definition saved_then_live_order :: "node list \<Rightarrow> string list \<Rightarrow> node list" where
  "saved_then_live_order bookmarks savedOrder =
     (let live = filter has_url bookmarks
      in concat (map (\<lambda>k. filter (\<lambda>b. node_id b = k) live) (first_occurrences savedOrder)) @
         filter (\<lambda>b. node_id b \<notin> set savedOrder) live)"

text \<open>
  The order in which \<^verbatim>\<open>Object.values\<close> lists bookmarks stored under their ids: those
  whose id is an array index by ascending id, then the others as they come.
\<close>

definition enumeration_order :: "node list \<Rightarrow> node list" where
  "enumeration_order bs =
     sort_key (\<lambda>b. decimal (node_id b)) (filter (\<lambda>b. is_array_index (node_id b)) bs) @
     filter (\<lambda>b. \<not> is_array_index (node_id b)) bs"

subsection \<open>Columns (KanbanRenderer.js)\<close>

text \<open>
  The entries of \<^verbatim>\<open>columnsData\<close>: \<^verbatim>\<open>{type: 'folder', data}\<close>,
  \<^verbatim>\<open>{type: 'uncategorized', title: 'Uncategorized', data}\<close> with the direct bookmarks of the
  bookmark bar, and \<^verbatim>\<open>{type: 'special', data}\<close>.
\<close>

datatype column = Folder node | Uncategorized "node list" | Special node

definition is_uncategorized :: "column \<Rightarrow> bool" where
  "is_uncategorized col = (case col of Uncategorized _ \<Rightarrow> True | _ \<Rightarrow> False)"

text \<open>The callback of the second \<^verbatim>\<open>find\<close>: folders and special folders match on their id.\<close>

definition matches_id :: "string \<Rightarrow> column \<Rightarrow> bool" where
  "matches_id columnId col =
     (case col of
        Folder d \<Rightarrow> node_id d = columnId
      | Special d \<Rightarrow> node_id d = columnId
      | Uncategorized _ \<Rightarrow> False)"

text \<open>The \<^verbatim>\<open>columnId\<close> computed in the second loop.\<close>

definition columnId_of :: "column \<Rightarrow> string" where
  "columnId_of col =
     (case col of
        Uncategorized _ \<Rightarrow> ''uncategorized''
      | Folder d \<Rightarrow> node_id d
      | Special d \<Rightarrow> node_id d)"

text \<open>
  The saved order is \<^const>\<open>None\<close> when storage holds none (\<^verbatim>\<open>null\<close> or \<^verbatim>\<open>undefined\<close>).
  A non-empty string is truthy.
\<close>

definition determineColumnOrder :: "column list \<Rightarrow> string list option \<Rightarrow> column list" where
  "determineColumnOrder columnsData savedColumnOrder =
     (case savedColumnOrder of
        None \<Rightarrow> columnsData
      | Some saved \<Rightarrow>
          if length saved = 0 then columnsData
          else
            (let orderedColumns =
                   fold (\<lambda>columnId acc.
                           case (if columnId = ''uncategorized''
                                 then find is_uncategorized columnsData
                                 else find (matches_id columnId) columnsData) of
                             Some matchColumn \<Rightarrow> acc @ [matchColumn]
                           | None \<Rightarrow> acc)
                     saved []
             in fold (\<lambda>col acc.
                        let columnId = columnId_of col
                        in if columnId \<noteq> [] \<and> columnId \<notin> set saved then acc @ [col]
                           else if columnId = [] then acc @ [col]
                           else acc)
                  columnsData orderedColumns))"

text \<open>
  The column data that \<^verbatim>\<open>processBookmarkTree\<close> collects from the root node: the folders
  of the bookmark bar (id 1), one uncategorized column when the bar has direct bookmarks,
  then "Other Bookmarks" (id 2) and "Mobile Bookmarks" (id 3). The result is \<^const>\<open>None\<close>
  when the source throws (a bookmark bar without \<^verbatim>\<open>children\<close>).
\<close>

definition collect_columns :: "node list \<Rightarrow> column list option" where
  "collect_columns roots =
     (let special = (\<lambda>i. case find (\<lambda>child. node_id child = i) roots of
                            None \<Rightarrow> [] | Some d \<Rightarrow> [Special d])
      in case find (\<lambda>child. node_id child = ''1'') roots of
           None \<Rightarrow> Some (special ''2'' @ special ''3'')
         | Some bookmarkBar \<Rightarrow>
             (case children bookmarkBar of
                None \<Rightarrow> None
              | Some cs \<Rightarrow>
                  Some (map Folder (filter has_children cs) @
                        (if length (filter has_url cs) > 0 then [Uncategorized (filter has_url cs)]
                         else []) @
                        special ''2'' @ special ''3'')))"

definition processBookmarkTree :: "node \<Rightarrow> string list option \<Rightarrow> column list option" where
  "processBookmarkTree rootNode savedColumnOrder =
     (case children rootNode of
        None \<Rightarrow> Some []
      | Some roots \<Rightarrow>
          (case collect_columns roots of
             None \<Rightarrow> None
           | Some columnsData \<Rightarrow> Some (determineColumnOrder columnsData savedColumnOrder)))"

text \<open>
  Live columns as the bookmarks API yields them: pairwise distinct column ids, none of
  them empty, and no folder whose id is the reserved word \<^verbatim>\<open>uncategorized\<close>.
\<close>

definition well_formed_columns :: "column list \<Rightarrow> bool" where
  "well_formed_columns cols =
     (distinct (map columnId_of cols) \<and>
      list_all (\<lambda>c. columnId_of c \<noteq> [] \<and> (is_uncategorized c \<or> columnId_of c \<noteq> ''uncategorized''))
        cols)"

subsection \<open>Example data\<close>

text \<open>
  Three bookmarks of one folder, in the order the bookmarks API lists them, and the
  children of a root node: a bookmark bar with two folders and one direct bookmark, and
  "Other Bookmarks".
\<close>

definition example_bookmarks :: "node list" where
  "example_bookmarks =
     [Node ''20'' ''Alpha'' (Some ''https://alpha.example/'') None,
      Node ''5'' ''Beta'' (Some ''https://beta.example/'') None,
      Node ''7'' ''Gamma'' (Some ''https://gamma.example/'') None]"

definition example_roots :: "node list" where
  "example_roots =
     [Node ''1'' ''Bookmarks bar'' None
        (Some [Node ''5'' ''Work'' None (Some []),
               Node ''6'' ''News'' (Some ''https://news.example/'') None,
               Node ''8'' ''Home'' None (Some [])]),
      Node ''2'' ''Other bookmarks'' None (Some [])]"

definition example_columns :: "column list" where
  "example_columns =
     [Folder (Node ''5'' ''Work'' None (Some [])),
      Folder (Node ''8'' ''Home'' None (Some [])),
      Uncategorized [Node ''6'' ''News'' (Some ''https://news.example/'') None],
      Special (Node ''2'' ''Other bookmarks'' None (Some []))]"

section \<open>The bookmark check of the background worker\<close>

subsection \<open>Traversing the tree\<close>

text \<open>
  \<^verbatim>\<open>traverseBookmarks\<close> descends into every node that has \<^verbatim>\<open>children\<close> and calls the
  callback on every other node. The callbacks of the source update variables of the
  enclosing function; here the callback transforms an accumulator.
\<close>

fun traverseBookmarks :: "node list \<Rightarrow> (node \<Rightarrow> 'a \<Rightarrow> 'a) \<Rightarrow> 'a \<Rightarrow> 'a" where
  "traverseBookmarks [] callback acc = acc"
| "traverseBookmarks (Node i t u (Some cs) # rest) callback acc =
     traverseBookmarks rest callback (traverseBookmarks cs callback acc)"
| "traverseBookmarks (Node i t u None # rest) callback acc =
     traverseBookmarks rest callback (callback (Node i t u None) acc)"

text \<open>The bookmarks of a tree: its nodes without \<^verbatim>\<open>children\<close>, from left to right.\<close>

fun leaves_of :: "node \<Rightarrow> node list" where
  "leaves_of (Node i t u None) = [Node i t u None]"
| "leaves_of (Node i t u (Some cs)) = concat (map leaves_of cs)"

definition tree_bookmarks :: "node list \<Rightarrow> node list" where
  "tree_bookmarks bookmarks = concat (map leaves_of bookmarks)"

subsection \<open>The environment of a check run\<close>

text \<open>
  \<open>hostname_of u\<close> is the hostname of \<^verbatim>\<open>new URL(u)\<close>, \<^const>\<open>None\<close> when the constructor
  throws. \<open>check_settles j\<close> tells how the \<^verbatim>\<open>siteChecker.checkSite\<close> call for entry
  \<open>j\<close> of \<^verbatim>\<open>bookmarksToCheck\<close> settles: \<open>Inr v\<close> when it resolves to \<open>v\<close>, \<open>Inl e\<close>
  when it rejects. The callbacks of one batch run concurrently; \<open>completion_order\<close>
  gives the order in which the callbacks of a batch resume after their \<^verbatim>\<open>await\<close>.
\<close>

record check_env =
  hostname_of :: "string \<Rightarrow> string option"
  check_settles :: "nat \<Rightarrow> js_error + jsval"
  completion_order :: "(nat \<times> node \<times> string) list \<Rightarrow> (nat \<times> node \<times> string) list"

datatype event = Started nat | Settled nat

text \<open>
  The variables of \<^verbatim>\<open>checkAllBookmarks\<close> that the batch loop updates, with two
  observations added: the batches the loop has processed, and the trace of checks
  started and settled (each named by its index in \<^verbatim>\<open>bookmarksToCheck\<close>).
\<close>

record check_run =
  results :: "(string, jsval) jsmap"
  checked :: nat
  batches :: "(node \<times> string) list list"
  events :: "event list"

definition batchSize :: nat where
  "batchSize = 10"

subsection \<open>checkAllBookmarks\<close>

text \<open>The second traversal: every bookmark with a URL that parses is collected.\<close>

definition collect_bookmark :: "check_env \<Rightarrow> node \<Rightarrow> (node \<times> string) list \<Rightarrow> (node \<times> string) list" where
  "collect_bookmark env bookmark acc =
     (case url bookmark of
        None \<Rightarrow> acc
      | Some u \<Rightarrow>
          if u \<noteq> [] then
            (case hostname_of env u of
               Some hostname \<Rightarrow> acc @ [(bookmark, hostname)]
             | None \<Rightarrow> acc)
          else acc)"

definition bookmarksToCheck :: "check_env \<Rightarrow> node list \<Rightarrow> (node \<times> string) list" where
  "bookmarksToCheck env bookmarks = traverseBookmarks bookmarks (collect_bookmark env) []"

text \<open>
  The body of the callback that \<^verbatim>\<open>batch.map\<close> runs for one entry, after its
  \<^verbatim>\<open>await\<close>: the value of the check is stored under the bookmark's id, \<^verbatim>\<open>false\<close> when
  the check threw.
\<close>

definition store_result ::
  "check_env \<Rightarrow> nat \<times> node \<times> string \<Rightarrow> (string, jsval) jsmap \<Rightarrow> (string, jsval) jsmap" where
  "store_result env entry res =
     (case entry of (j, bookmark, hostname) \<Rightarrow>
        (case check_settles env j of
           Inr isAlive \<Rightarrow> map_set res (node_id bookmark) isAlive
         | Inl error \<Rightarrow> map_set res (node_id bookmark) (JBool False)))"

text \<open>
  The \<^verbatim>\<open>for\<close> loop. All callbacks of a batch start (in order) when \<^verbatim>\<open>batch.map\<close> runs;
  \<^verbatim>\<open>await Promise.all(promises)\<close> lets the loop continue once all of them have finished.
\<close>

function batch_loop ::
  "check_env \<Rightarrow> (node \<times> string) list \<Rightarrow> nat \<Rightarrow> check_run \<Rightarrow> check_run" where
  "batch_loop env toCheck i run =
     (if i < length toCheck then
        (let batch = take batchSize (drop i toCheck);
             started = enumerate i batch;
             finished = completion_order env started
         in batch_loop env toCheck (i + batchSize)
              \<lparr>results = fold (store_result env) finished (results run),
               checked = checked run + length batch,
               batches = batches run @ [batch],
               events = events run @ map (\<lambda>e. Started (fst e)) started
                                    @ map (\<lambda>e. Settled (fst e)) finished\<rparr>)
      else run)"
  by pat_completeness auto
termination
  by (relation "measure (\<lambda>(env, toCheck, i, run). length toCheck - i)")
     (auto simp: batchSize_def)

declare batch_loop.simps [simp del]

definition checkAllBookmarks :: "check_env \<Rightarrow> node list \<Rightarrow> check_run" where
  "checkAllBookmarks env bookmarks =
     batch_loop env (bookmarksToCheck env bookmarks) 0
       \<lparr>results = [], checked = 0, batches = [], events = []\<rparr>"

subsection \<open>Notions used to state the properties of the check\<close>

text \<open>A bookmark is checked when it has a URL and the URL parses.\<close>

definition url_parses :: "check_env \<Rightarrow> node \<Rightarrow> bool" where
  "url_parses env bookmark =
     (case url bookmark of None \<Rightarrow> False | Some u \<Rightarrow> u \<noteq> [] \<and> hostname_of env u \<noteq> None)"

text \<open>The value recorded for a check: what it resolved to, \<^verbatim>\<open>false\<close> when it threw.\<close>

definition recorded_value :: "js_error + jsval \<Rightarrow> jsval" where
  "recorded_value outcome = (case outcome of Inr isAlive \<Rightarrow> isAlive | Inl error \<Rightarrow> JBool False)"

definition entry_result :: "check_env \<Rightarrow> nat \<times> node \<times> string \<Rightarrow> string \<times> jsval" where
  "entry_result env e = (node_id (fst (snd e)), recorded_value (check_settles env (fst e)))"

definition expected_results :: "check_env \<Rightarrow> (node \<times> string) list \<Rightarrow> (string \<times> jsval) list" where
  "expected_results env toCheck = map (entry_result env) (enumerate 0 toCheck)"

text \<open>The number of the batch that entry \<open>j\<close> belongs to.\<close>

definition batch_of :: "event \<Rightarrow> nat" where
  "batch_of e = (case e of Started j \<Rightarrow> j div batchSize | Settled j \<Rightarrow> j div batchSize)"

text \<open>
  Twelve bookmarks in two folders, an entry whose URL does not parse, and an environment
  in which the callbacks of a batch finish in reverse order and the check of entry 3
  throws.
\<close>

definition example_tree :: "node list" where
  "example_tree =
     [Node ''0'' '''' None
        (Some [Node ''1'' ''Bookmarks bar'' None
                 (Some (map (\<lambda>k. Node (''1'' @ [char_of (k + 48)]) ''site''
                                     (Some (''https://site'' @ [char_of (k + 48)] @ ''.example/'')) None)
                          [0..<8] @
                        [Node ''30'' ''broken'' (Some ''not a url'') None])),
               Node ''2'' ''Other bookmarks'' None
                 (Some (map (\<lambda>k. Node (''2'' @ [char_of (k + 48)]) ''page''
                                     (Some (''https://page'' @ [char_of (k + 48)] @ ''.example/'')) None)
                          [0..<4]))])]"

definition example_env :: check_env where
  "example_env =
     \<lparr>hostname_of = (\<lambda>u. if prefix ''https://'' u then Some (takeWhile (\<lambda>c. c \<noteq> CHR ''/'') (drop 8 u))
                          else None),
      check_settles = (\<lambda>j. if j = 3 then Inl \<lparr>err_name = ''TypeError'', err_message = ''failed''\<rparr>
                            else Inr (JBool True)),
      completion_order = rev\<rparr>"

section \<open>The local-address test of js/siteChecker.js\<close>

text \<open>
  The second \<^verbatim>\<open>SiteChecker\<close> class tests a hostname against five regular expressions.
  Each expression is anchored at both ends, so \<^verbatim>\<open>test\<close> succeeds exactly when the whole
  string matches. A pattern is written here as a matcher in continuation style: every
  piece takes the matcher for the rest of the pattern and the rest of the input.
  \<open>lit\<close> is a run of literal characters, \<open>char_range\<close> a class such as
  \<^verbatim>\<open>[6-9]\<close>, \<open>digit\<close> is \<^verbatim>\<open>\d\<close> (the ASCII digits), \<open>digits1\<close> is \<^verbatim>\<open>\d+\<close>
  (all ways of splitting are tried, as backtracking does), \<open>alt3\<close> a group of three
  alternatives and \<open>eos\<close> the anchor \<^verbatim>\<open>$\<close>.
\<close>

definition lit :: "string \<Rightarrow> (string \<Rightarrow> bool) \<Rightarrow> string \<Rightarrow> bool" where
  "lit p k s = (prefix p s \<and> k (drop (length p) s))"

definition char_range :: "char \<Rightarrow> char \<Rightarrow> (string \<Rightarrow> bool) \<Rightarrow> string \<Rightarrow> bool" where
  "char_range lo hi k s =
     (case s of
        [] \<Rightarrow> False
      | c # r \<Rightarrow> (of_char lo :: nat) \<le> of_char c \<and> (of_char c :: nat) \<le> of_char hi \<and> k r)"

definition digit :: "(string \<Rightarrow> bool) \<Rightarrow> string \<Rightarrow> bool" where
  "digit k s = (case s of [] \<Rightarrow> False | c # r \<Rightarrow> is_digit c \<and> k r)"

fun digits1 :: "(string \<Rightarrow> bool) \<Rightarrow> string \<Rightarrow> bool" where
  "digits1 k [] = False"
| "digits1 k (c # r) = (is_digit c \<and> (digits1 k r \<or> k r))"

definition alt3 ::
  "((string \<Rightarrow> bool) \<Rightarrow> string \<Rightarrow> bool) \<Rightarrow> ((string \<Rightarrow> bool) \<Rightarrow> string \<Rightarrow> bool) \<Rightarrow>
   ((string \<Rightarrow> bool) \<Rightarrow> string \<Rightarrow> bool) \<Rightarrow> (string \<Rightarrow> bool) \<Rightarrow> string \<Rightarrow> bool" where
  "alt3 a b c k s = (a k s \<or> b k s \<or> c k s)"

definition eos :: "string \<Rightarrow> bool" where
  "eos s = (s = [])"

text \<open>
  \<^verbatim>\<open>/^localhost$/\<close>, \<^verbatim>\<open>/^127\.\d+\.\d+\.\d+$/\<close>, \<^verbatim>\<open>/^192\.168\.\d+\.\d+$/\<close>,
  \<^verbatim>\<open>/^10\.\d+\.\d+\.\d+$/\<close> and \<^verbatim>\<open>/^172\.(1[6-9]|2\d|3[0-1])\.\d+\.\d+$/\<close>.
\<close>

definition localPatterns :: "(string \<Rightarrow> bool) list" where
  "localPatterns =
     [lit ''localhost'' eos,
      lit ''127.'' (digits1 (lit ''.'' (digits1 (lit ''.'' (digits1 eos))))),
      lit ''192.168.'' (digits1 (lit ''.'' (digits1 eos))),
      lit ''10.'' (digits1 (lit ''.'' (digits1 (lit ''.'' (digits1 eos))))),
      lit ''172.''
        (alt3 (\<lambda>k. lit ''1'' (char_range CHR ''6'' CHR ''9'' k))
              (\<lambda>k. lit ''2'' (digit k))
              (\<lambda>k. lit ''3'' (char_range CHR ''0'' CHR ''1'' k))
           (lit ''.'' (digits1 (lit ''.'' (digits1 eos)))))]"

text \<open>\<^verbatim>\<open>localPatterns.some(pattern => pattern.test(hostname))\<close>\<close>

definition isLocalNetwork_regex :: "string \<Rightarrow> bool" where
  "isLocalNetwork_regex hostname = list_ex (\<lambda>pattern. pattern hostname) localPatterns"

text \<open>The last character of a string is a digit.\<close>

definition ends_with_digit :: "string \<Rightarrow> bool" where
  "ends_with_digit s = (s \<noteq> [] \<and> is_digit (last s))"

section \<open>Properties of the site checker\<close>

subsection \<open>Maps\<close>

lemma removeCount_eq: "removeCount = 100"
  by (simp add: removeCount_def MAX_CACHE_SIZE_def)

lemma map_of_map_set: "map_of (map_set m k v) k' = (if k' = k then Some v else map_of m k')"
  by (induction m) auto

lemma keys_map_set: "set (map fst (map_set m k v)) = insert k (set (map fst m))"
  by (induction m) force+

lemma is_Map_map_set: "is_Map m \<Longrightarrow> is_Map (map_set m k v)"
  unfolding is_Map_def
proof (induction m)
  case Nil
  then show ?case by simp
next
  case (Cons e m)
  then show ?case
    by (cases e) (auto simp: keys_map_set simp del: set_map)
qed

lemma map_set_fresh: "k \<notin> fst ` set m \<Longrightarrow> map_set m k v = m @ [(k, v)]"
  by (induction m) auto

lemma length_map_set_le: "length (map_set m k v) \<le> Suc (length m)"
  by (induction m) auto

lemma fold_delete_host:
  "fold delete_host ks c =
     c\<lparr>siteStatus := filter (\<lambda>e. fst e \<notin> set ks) (siteStatus c),
       checkTimes := filter (\<lambda>e. fst e \<notin> set ks) (checkTimes c)\<rparr>"
proof (induction ks arbitrary: c)
  case Nil
  then show ?case by simp
next
  case (Cons k ks)
  have "fold delete_host (k # ks) c = fold delete_host ks (delete_host k c)"
    by simp
  also have "\<dots> = (delete_host k c)\<lparr>siteStatus := filter (\<lambda>e. fst e \<notin> set ks) (siteStatus (delete_host k c)),
       checkTimes := filter (\<lambda>e. fst e \<notin> set ks) (checkTimes (delete_host k c))\<rparr>"
    by (rule Cons.IH)
  also have "\<dots> = c\<lparr>siteStatus := filter (\<lambda>e. fst e \<notin> set (k # ks)) (siteStatus c),
       checkTimes := filter (\<lambda>e. fst e \<notin> set (k # ks)) (checkTimes c)\<rparr>"
    by (simp add: delete_host_def map_delete_def conj_commute)
  finally show ?case .
qed

lemma map_of_filter_keys:
  "map_of (filter (\<lambda>e. fst e \<notin> S) m) k = (if k \<in> S then None else map_of m k)"
  by (induction m) auto

lemma is_Map_filter: "is_Map m \<Longrightarrow> is_Map (filter P m)"
  by (simp add: is_Map_def distinct_map_filter)

lemma keys_filter_keys:
  "set (map fst (filter (\<lambda>e. fst e \<notin> S) m)) = set (map fst m) - S"
  by (induction m) auto

lemma length_filter_keys:
  assumes "is_Map m"
  shows "length (filter (\<lambda>e. fst e \<notin> S) m) = card (set (map fst m) - S)"
proof -
  have "distinct (map fst (filter (\<lambda>e. fst e \<notin> S) m))"
    using assms by (simp add: is_Map_def distinct_map_filter)
  then have "card (set (map fst (filter (\<lambda>e. fst e \<notin> S) m))) = length (filter (\<lambda>e. fst e \<notin> S) m)"
    using distinct_card by fastforce
  then show ?thesis by (simp only: keys_filter_keys)
qed

lemma length_is_Map: "is_Map m \<Longrightarrow> length m = card (set (map fst m))"
  using distinct_card[of "map fst m"] by (simp add: is_Map_def)

lemma is_Map_map_of: "is_Map m \<Longrightarrow> (k, v) \<in> set m \<Longrightarrow> map_of m k = Some v"
  by (simp add: is_Map_def)

lemma expired_key_iff:
  assumes "is_Map m" "map_of m k = Some t"
  shows "k \<in> fst ` {e \<in> set m. P (fst e) (snd e)} \<longleftrightarrow> P k t"
proof
  assume "k \<in> fst ` {e \<in> set m. P (fst e) (snd e)}"
  then obtain t' where "(k, t') \<in> set m" "P k t'" by auto
  with assms show "P k t" using is_Map_map_of by fastforce
next
  assume "P k t"
  moreover have "(k, t) \<in> set m" using assms(2) by (rule map_of_SomeD)
  ultimately show "k \<in> fst ` {e \<in> set m. P (fst e) (snd e)}" by force
qed

subsection \<open>Expiry by result class\<close>

lemma cleanupCache_filter:
  "cleanupCache c now =
     c\<lparr>siteStatus := filter (\<lambda>e. fst e \<notin> fst ` {e \<in> set (checkTimes c). now - snd e > getCacheDuration (status_of c (fst e))}) (siteStatus c),
       checkTimes := filter (\<lambda>e. fst e \<notin> fst ` {e \<in> set (checkTimes c). now - snd e > getCacheDuration (status_of c (fst e))}) (checkTimes c)\<rparr>"
proof -
  have "set (map fst (filter (\<lambda>(hostname, timestamp). now - timestamp > getCacheDuration (status_of c hostname)) (checkTimes c)))
        = fst ` {e \<in> set (checkTimes c). now - snd e > getCacheDuration (status_of c (fst e))}"
    by (auto simp: case_prod_unfold)
  then show ?thesis
    by (simp add: cleanupCache_def fold_delete_host del: set_map set_filter)
qed

lemma getCacheDuration_classes:
  "getCacheDuration (JBool True) = 86400000"
  "getCacheDuration (JBool False) = 3600000"
  "getCacheDuration (JStr ''certificate-error'') = 43200000"
  "getCacheDuration (JStr ''no-https'') = 43200000"
  by (simp_all add: getCacheDuration_def CACHE_DURATION_SUCCESS_def CACHE_DURATION_FAILURE_def
      CACHE_DURATION_CERT_ERROR_def CACHE_DURATION_NO_HTTPS_def)

text \<open>
  Claim C3, as stated: each of the four result classes is assigned its own cache duration.
  The durations of the four classes are not pairwise distinct: \<^verbatim>\<open>'certificate-error'\<close>
  and \<^verbatim>\<open>'no-https'\<close> are assigned the same duration.
\<close>

theorem own_duration_per_class_counterexample:
  "\<not> distinct (map getCacheDuration
        [JBool True, JBool False, JStr ''certificate-error'', JStr ''no-https''])"
  by (simp add: getCacheDuration_classes)

text \<open>
  Claim C3, amended. \<^verbatim>\<open>getCacheDuration\<close> assigns 24 hours (86400000 ms) to
  \<^verbatim>\<open>true\<close>, 1 hour (3600000 ms) to \<^verbatim>\<open>false\<close> and the same 12 hours (43200000 ms) to
  both \<^verbatim>\<open>'certificate-error'\<close> and \<^verbatim>\<open>'no-https'\<close>; every other value gets the failure
  duration of 1 hour. For a hostname with a check time and with the status \<open>status\<close>
  stored in \<^verbatim>\<open>siteStatus\<close>, \<^verbatim>\<open>shouldRecheck\<close> answers true, \<^verbatim>\<open>isCacheValid\<close> answers
  false and \<^verbatim>\<open>cleanupCache\<close> deletes the entry from both maps exactly when the age of
  the entry exceeds the duration assigned to \<open>status\<close>.
\<close>

theorem expiry_by_stored_status:
  assumes "is_Map (checkTimes c)"
    and "map_of (checkTimes c) hostname = Some lastCheck"
    and "map_of (siteStatus c) hostname = Some status"
  shows "getCacheDuration (JBool True) = 86400000
       \<and> getCacheDuration (JBool False) = 3600000
       \<and> getCacheDuration (JStr ''certificate-error'') = 43200000
       \<and> getCacheDuration (JStr ''no-https'') = 43200000
       \<and> (v \<noteq> JBool True \<and> v \<noteq> JStr ''certificate-error'' \<and> v \<noteq> JStr ''no-https''
            \<longrightarrow> getCacheDuration v = 3600000)
       \<and> shouldRecheck c now hostname = (now - lastCheck > getCacheDuration status)
       \<and> isCacheValid c now hostname = (\<not> now - lastCheck > getCacheDuration status)
       \<and> map_of (checkTimes (cleanupCache c now)) hostname
            = (if now - lastCheck > getCacheDuration status then None else Some lastCheck)
       \<and> map_of (siteStatus (cleanupCache c now)) hostname
            = (if now - lastCheck > getCacheDuration status then None else Some status)"
proof -
  have st: "status_of c hostname = status"
    using assms(3) by (simp add: status_of_def)
  let ?P = "\<lambda>k t. now - t > getCacheDuration (status_of c k)"
  have other: "v \<noteq> JBool True \<and> v \<noteq> JStr ''certificate-error'' \<and> v \<noteq> JStr ''no-https''
            \<longrightarrow> getCacheDuration v = 3600000"
    by (simp add: getCacheDuration_def CACHE_DURATION_FAILURE_def)
  have recheck: "shouldRecheck c now hostname = (now - lastCheck > getCacheDuration status)"
    using assms(2) by (simp add: shouldRecheck_def st)
  have valid: "isCacheValid c now hostname = (\<not> now - lastCheck > getCacheDuration status)"
    using assms(2) by (auto simp: isCacheValid_def st)
  have key: "hostname \<in> fst ` {e \<in> set (checkTimes c). ?P (fst e) (snd e)} \<longleftrightarrow> ?P hostname lastCheck"
    using assms(1,2) by (rule expired_key_iff)
  have times: "map_of (checkTimes (cleanupCache c now)) hostname
            = (if now - lastCheck > getCacheDuration status then None else Some lastCheck)"
    using key assms(2) by (simp add: cleanupCache_filter map_of_filter_keys st del: mem_Collect_eq)
  have stat: "map_of (siteStatus (cleanupCache c now)) hostname
            = (if now - lastCheck > getCacheDuration status then None else Some status)"
    using key assms(3) by (simp add: cleanupCache_filter map_of_filter_keys st del: mem_Collect_eq)
  from getCacheDuration_classes other recheck valid times stat show ?thesis
    by (intro conjI)
qed

theorem expiry_by_stored_status_witness:
  "is_Map [(''example.com'', 1700000000000 :: int)]
   \<and> \<not> shouldRecheck \<lparr>siteStatus = [(''example.com'', JBool True)],
                       checkTimes = [(''example.com'', 1700000000000)]\<rparr>
         1700003600001 ''example.com''
   \<and> shouldRecheck \<lparr>siteStatus = [(''example.com'', JBool True)],
                       checkTimes = [(''example.com'', 1700000000000)]\<rparr>
         1700086400001 ''example.com''
   \<and> isCacheValid \<lparr>siteStatus = [(''example.com'', JBool True)],
                      checkTimes = [(''example.com'', 1700000000000)]\<rparr>
         1700086400000 ''example.com''
   \<and> map_of (checkTimes (cleanupCache \<lparr>siteStatus = [(''example.com'', JBool True)],
                       checkTimes = [(''example.com'', 1700000000000)]\<rparr> 1700086400001))
         ''example.com'' = None
   \<and> map_of (siteStatus (cleanupCache \<lparr>siteStatus = [(''example.com'', JBool True)],
                       checkTimes = [(''example.com'', 1700000000000)]\<rparr> 1700003600001))
         ''example.com'' = Some (JBool True)"
proof -
  let ?c = "\<lparr>siteStatus = [(''example.com'', JBool True)],
             checkTimes = [(''example.com'', 1700000000000)]\<rparr>"
  have m: "is_Map (checkTimes ?c)"
    by (simp add: is_Map_def)
  have l: "map_of (checkTimes ?c) ''example.com'' = Some 1700000000000"
    by simp
  have s: "map_of (siteStatus ?c) ''example.com'' = Some (JBool True)"
    by simp
  have d: "getCacheDuration (JBool True) = 86400000"
    by (simp add: getCacheDuration_classes)
  from expiry_by_stored_status[OF m l s, of JNull 1700003600001]
  have a: "shouldRecheck ?c 1700003600001 ''example.com''
             = (1700003600001 - 1700000000000 > getCacheDuration (JBool True))"
    and b: "map_of (siteStatus (cleanupCache ?c 1700003600001)) ''example.com''
             = (if 1700003600001 - 1700000000000 > getCacheDuration (JBool True)
                then None else Some (JBool True))"
    by blast+
  from expiry_by_stored_status[OF m l s, of JNull 1700086400001]
  have e: "shouldRecheck ?c 1700086400001 ''example.com''
             = (1700086400001 - 1700000000000 > getCacheDuration (JBool True))"
    and f: "map_of (checkTimes (cleanupCache ?c 1700086400001)) ''example.com''
             = (if 1700086400001 - 1700000000000 > getCacheDuration (JBool True)
                then None else Some 1700000000000)"
    by blast+
  from expiry_by_stored_status[OF m l s, of JNull 1700086400000]
  have g: "isCacheValid ?c 1700086400000 ''example.com''
             = (\<not> 1700086400000 - 1700000000000 > getCacheDuration (JBool True))"
    by blast
  from a b e f g m show ?thesis
    unfolding d by simp
qed

subsection \<open>The number of distinct durations\<close>

lemma getCacheDuration_range: "range getCacheDuration = {86400000, 43200000, 3600000}"
proof (rule equalityI)
  show "range getCacheDuration \<subseteq> {86400000, 43200000, 3600000}"
    by (auto simp: getCacheDuration_def CACHE_DURATION_SUCCESS_def CACHE_DURATION_FAILURE_def
        CACHE_DURATION_CERT_ERROR_def CACHE_DURATION_NO_HTTPS_def)
  have "getCacheDuration (JBool True) \<in> range getCacheDuration"
       "getCacheDuration (JStr ''no-https'') \<in> range getCacheDuration"
       "getCacheDuration (JBool False) \<in> range getCacheDuration"
    by blast+
  then show "{86400000, 43200000, 3600000} \<subseteq> range getCacheDuration"
    by (simp add: getCacheDuration_classes)
qed

text \<open>
  Claim C4, as stated: the set of durations that \<^verbatim>\<open>getCacheDuration\<close> can return has
  exactly two elements. It has three.
\<close>

theorem two_ttl_buckets_counterexample: "card (range getCacheDuration) \<noteq> 2"
  by (simp add: getCacheDuration_range)

text \<open>
  Claim C4, amended: \<^verbatim>\<open>getCacheDuration\<close> returns exactly three distinct durations:
  24 hours (success), 12 hours (certificate error and no HTTPS) and 1 hour (failure).
\<close>

theorem cache_duration_buckets:
  "range getCacheDuration = {86400000, 43200000, 3600000} \<and> card (range getCacheDuration) = 3"
  by (simp add: getCacheDuration_range)

subsection \<open>Round trip through the cache\<close>

lemma updateCache_lookup:
  "map_of (siteStatus (updateCache c hostname status now)) hostname = Some status"
  "map_of (checkTimes (updateCache c hostname status now)) hostname = Some now"
  by (simp_all add: updateCache_def Let_def map_of_map_set)

lemma updateCache_status_of: "status_of (updateCache c hostname status now) hostname = status"
  by (simp add: status_of_def updateCache_lookup)





subsection \<open>Failed and successful checks\<close>

text \<open>
  Claim C6. For a hostname that is not local and whose cache entry is absent or expired:
  when the timeout promise settles first or the availability check throws,
  \<^verbatim>\<open>checkSite\<close> returns \<^verbatim>\<open>false\<close> and the cache then holds \<^verbatim>\<open>false\<close> for the hostname
  with the clock reading of the update; when the check completes first with a status,
  that status is returned and is the one the cache holds.
\<close>

theorem checkSite_failure_is_cached:
  assumes "\<not> isLocalNetwork hostname"
    and "map_of (checkTimes c) hostname = None
         \<or> (\<exists>lastCheck. map_of (checkTimes c) hostname = Some lastCheck
               \<and> now1 - lastCheck > getCacheDuration (status_of c hostname))"
    and "checkSite c c_resumed net now1 now2 hostname = (result, c', probes)"
  shows "(timeout_first net \<or> isl (fst (checkAvailability net hostname))
            \<longrightarrow> result = JBool False
              \<and> map_of (siteStatus c') hostname = Some (JBool False)
              \<and> map_of (checkTimes c') hostname = Some now2)
       \<and> (\<not> timeout_first net \<and> fst (checkAvailability net hostname) = Inr status
            \<longrightarrow> result = status \<and> map_of (siteStatus c') hostname = Some status
              \<and> map_of (checkTimes c') hostname = Some now2)"
proof -
  have recheck: "shouldRecheck c now1 hostname"
    using assms(2) by (auto simp: shouldRecheck_def)
  obtain outcome ps where avail: "checkAvailability net hostname = (outcome, ps)"
    by (cases "checkAvailability net hostname")
  show ?thesis
  proof (cases "timeout_first net")
    case True
    with assms(1,3) recheck avail show ?thesis
      by (auto simp: checkSite_def updateCache_lookup)
  next
    case False
    show ?thesis
    proof (cases outcome)
      case (Inl e)
      with False assms(1,3) recheck avail show ?thesis
        by (auto simp: checkSite_def updateCache_lookup)
    next
      case (Inr st)
      with False assms(1,3) recheck avail show ?thesis
        by (auto simp: checkSite_def updateCache_lookup)
    qed
  qed
qed

lemma example_not_local: "\<not> isLocalNetwork ''example.com''"
  by code_simp

theorem checkSite_failure_is_cached_witness:
  "\<not> isLocalNetwork ''example.com''
   \<and> map_of (checkTimes new_SiteChecker) ''example.com'' = None
   \<and> fst (checkSite new_SiteChecker new_SiteChecker
          \<lparr>fetch_head = (\<lambda>url. Fulfilled), image_probe = (\<lambda>h. Inr True), timeout_first = True\<rparr>
          5 5005 ''example.com'') = JBool False
   \<and> map_of (siteStatus (fst (snd (checkSite new_SiteChecker new_SiteChecker
          \<lparr>fetch_head = (\<lambda>url. Fulfilled), image_probe = (\<lambda>h. Inr True), timeout_first = True\<rparr>
          5 5005 ''example.com'')))) ''example.com'' = Some (JBool False)
   \<and> map_of (checkTimes (fst (snd (checkSite new_SiteChecker new_SiteChecker
          \<lparr>fetch_head = (\<lambda>url. Fulfilled), image_probe = (\<lambda>h. Inr True), timeout_first = True\<rparr>
          5 5005 ''example.com'')))) ''example.com'' = Some 5005"
proof -
  let ?net = "\<lparr>fetch_head = (\<lambda>url. Fulfilled), image_probe = (\<lambda>h. Inr True), timeout_first = True\<rparr>"
  let ?r = "checkSite new_SiteChecker new_SiteChecker ?net 5 5005 ''example.com''"
  have absent: "map_of (checkTimes new_SiteChecker) ''example.com'' = None
         \<or> (\<exists>lastCheck. map_of (checkTimes new_SiteChecker) ''example.com'' = Some lastCheck
               \<and> 5 - lastCheck > getCacheDuration (status_of new_SiteChecker ''example.com''))"
    by (simp add: new_SiteChecker_def)
  have r: "?r = (fst ?r, fst (snd ?r), snd (snd ?r))"
    by simp
  show ?thesis
    using checkSite_failure_is_cached[OF example_not_local absent r, of "JBool True"]
      example_not_local
    by (simp add: new_SiteChecker_def)
qed

subsection \<open>The values checkSite resolves to\<close>

lemma checkAvailability_classes:
  assumes "fst (checkAvailability net hostname) = Inr status"
  shows "status \<in> {JBool True, JStr ''no-https'', JStr ''certificate-error'', JBool False}"
proof -
  obtain f1 e1 p1 where t1: "try_urls net [''https://'' @ hostname @ ''/favicon.ico'',
                       ''https://'' @ hostname @ ''/robots.txt'',
                       ''https://'' @ hostname] None = (f1, e1, p1)"
    using prod_cases3 by blast
  obtain f2 e2 p2 where t2: "try_urls net [''http://'' @ hostname @ ''/favicon.ico'',
                      ''http://'' @ hostname @ ''/robots.txt'',
                      ''http://'' @ hostname] None = (f2, e2, p2)"
    using prod_cases3 by blast
  show ?thesis
    using assms unfolding checkAvailability_def Let_def t1 t2
    by (cases f1; cases f2; cases "checkDomainExists net hostname")
       (simp_all split: if_splits)
qed

text \<open>
  With a single clock reading for the whole call and a cache that holds only the four
  classification values, \<^verbatim>\<open>checkSite\<close> resolves to one of the four.
\<close>

lemma checkSite_classes_same_reading:
  assumes "\<forall>e \<in> set (siteStatus c).
             snd e \<in> {JBool True, JStr ''no-https'', JStr ''certificate-error'', JBool False}"
    and "set (map_keys (checkTimes c)) \<subseteq> set (map_keys (siteStatus c))"
  shows "fst (checkSite c c_resumed net now now hostname)
           \<in> {JBool True, JStr ''no-https'', JStr ''certificate-error'', JBool False}"
proof (cases "isLocalNetwork hostname")
  case True
  then show ?thesis by (simp add: checkSite_def)
next
  case False
  show ?thesis
  proof (cases "shouldRecheck c now hostname")
    case True
    obtain outcome ps where a: "checkAvailability net hostname = (outcome, ps)"
      by (cases "checkAvailability net hostname")
    show ?thesis
    proof (cases "timeout_first net")
      case True
      with \<open>\<not> isLocalNetwork hostname\<close> \<open>shouldRecheck c now hostname\<close> a show ?thesis
        by (simp add: checkSite_def)
    next
      case no_timeout: False
      show ?thesis
      proof (cases outcome)
        case (Inl e)
        with no_timeout \<open>\<not> isLocalNetwork hostname\<close> \<open>shouldRecheck c now hostname\<close> a
        show ?thesis by (simp add: checkSite_def)
      next
        case (Inr status)
        then have "fst (checkAvailability net hostname) = Inr status"
          using a by simp
        then have "status \<in> {JBool True, JStr ''no-https'', JStr ''certificate-error'', JBool False}"
          by (rule checkAvailability_classes)
        with Inr no_timeout \<open>\<not> isLocalNetwork hostname\<close> \<open>shouldRecheck c now hostname\<close> a
        show ?thesis by (simp add: checkSite_def)
      qed
    qed
  next
    case fresh: False
    then obtain t where t: "map_of (checkTimes c) hostname = Some t"
      by (auto simp: shouldRecheck_def split: option.splits)
    then have "hostname \<in> set (map_keys (checkTimes c))"
      by (force simp: map_keys_def dest: map_of_SomeD)
    with assms(2) have "hostname \<in> fst ` set (siteStatus c)"
      by (auto simp: map_keys_def)
    then obtain s where s: "map_of (siteStatus c) hostname = Some s"
      by (metis map_of_eq_None_iff not_Some_eq)
    then have "(hostname, s) \<in> set (siteStatus c)"
      by (rule map_of_SomeD)
    with assms(1) have cls: "s \<in> {JBool True, JStr ''no-https'', JStr ''certificate-error'', JBool False}"
      by fastforce
    have valid: "isCacheValid c now hostname"
      using fresh t by (simp add: shouldRecheck_def isCacheValid_def)
    show ?thesis
      using False fresh valid s cls
      by (simp add: checkSite_def getCachedStatus_def status_of_def)
  qed
qed

text \<open>
  Claim C5 fails on the cache path. \<^verbatim>\<open>shouldRecheck\<close> and \<^verbatim>\<open>isCacheValid\<close> each read
  the clock. An entry for \<^verbatim>\<open>example.com\<close> stored as \<^verbatim>\<open>false\<close> at time 1700000000000 is
  exactly one hour old at the first reading (1700003600000: no recheck) and one millisecond
  older at the second (1700003600001: no longer valid), and \<^verbatim>\<open>checkSite\<close> resolves to
  \<^verbatim>\<open>null\<close>, which is none of the four classification values.
\<close>

theorem checkSite_returns_null:
  "checkSite (updateCache new_SiteChecker ''example.com'' (JBool False) 1700000000000) c_resumed net
      1700003600000 1700003600001 ''example.com''
   = (JNull, updateCache new_SiteChecker ''example.com'' (JBool False) 1700000000000, [])"
  by (simp add: checkSite_def example_not_local shouldRecheck_def getCachedStatus_def
      isCacheValid_def updateCache_lookup updateCache_status_of getCacheDuration_classes)

subsection \<open>Size eviction\<close>

lemma limitCacheSize_filter:
  "limitCacheSize c =
     c\<lparr>siteStatus := filter (\<lambda>e. fst e \<notin> fst ` set (oldest_entries c)) (siteStatus c),
       checkTimes := filter (\<lambda>e. fst e \<notin> fst ` set (oldest_entries c)) (checkTimes c)\<rparr>"
  by (simp add: limitCacheSize_def Let_def fold_delete_host oldest_entries_def)

lemma sorted_keys_distinct: "is_Map m \<Longrightarrow> distinct (map fst (sort_key snd m))"
proof -
  assume "is_Map m"
  have "mset (map fst (sort_key snd m)) = mset (map fst m)"
    by simp
  then have "distinct (map fst (sort_key snd m)) = distinct (map fst m)"
    by (rule mset_eq_imp_distinct_iff)
  with \<open>is_Map m\<close> show ?thesis by (simp add: is_Map_def)
qed

lemma oldest_subset: "set (oldest_entries c) \<subseteq> set (checkTimes c)"
  unfolding oldest_entries_def using set_take_subset[of removeCount "sort_key snd (checkTimes c)"]
  by simp

lemma oldest_are_oldest:
  assumes "e \<in> set (oldest_entries c)" and "e' \<in> set (checkTimes c)" and "e' \<notin> set (oldest_entries c)"
  shows "snd e \<le> snd e'"
proof -
  let ?s = "sort_key snd (checkTimes c)"
  have "sorted (map snd (take removeCount ?s @ drop removeCount ?s))"
    by simp
  then have ord: "\<forall>x\<in>set (map snd (take removeCount ?s)). \<forall>y\<in>set (map snd (drop removeCount ?s)). x \<le> y"
    unfolding map_append sorted_append by blast
  have "e' \<in> set (take removeCount ?s @ drop removeCount ?s)"
    using assms(2) by simp
  then have "e' \<in> set (drop removeCount ?s)"
    using assms(3) unfolding oldest_entries_def set_append by blast
  with ord assms(1) show ?thesis
    unfolding oldest_entries_def by simp
qed

lemma card_oldest_keys:
  assumes "is_Map (checkTimes c)" and "removeCount \<le> length (checkTimes c)"
  shows "card (fst ` set (oldest_entries c)) = removeCount"
proof -
  have "distinct (take removeCount (map fst (sort_key snd (checkTimes c))))"
    using sorted_keys_distinct[OF assms(1)] by (rule distinct_take)
  then have "distinct (map fst (oldest_entries c))"
    by (simp add: oldest_entries_def take_map)
  then have "card (set (map fst (oldest_entries c))) = length (map fst (oldest_entries c))"
    by (rule distinct_card)
  then show ?thesis
    using assms(2) by (simp add: oldest_entries_def)
qed

lemma cache_inv_lengths: "cache_inv c \<Longrightarrow> length (checkTimes c) = length (siteStatus c)"
  by (simp add: cache_inv_def length_is_Map map_keys_def)

lemma limitCacheSize_full:
  assumes "cache_inv c" and "MAX_CACHE_SIZE \<le> length (siteStatus c)"
  shows "length (siteStatus (limitCacheSize c)) = MAX_CACHE_SIZE - removeCount"
proof -
  have len: "length (siteStatus c) = MAX_CACHE_SIZE"
    using assms by (simp add: cache_inv_def)
  have m: "is_Map (siteStatus c)" "is_Map (checkTimes c)"
    using assms(1) by (simp_all add: cache_inv_def)
  have keys: "set (map fst (siteStatus c)) = set (map fst (checkTimes c))"
    using assms(1) by (simp add: cache_inv_def map_keys_def)
  have "removeCount \<le> length (checkTimes c)"
    using len cache_inv_lengths[OF assms(1)] by (simp add: removeCount_eq MAX_CACHE_SIZE_def)
  then have c1: "card (fst ` set (oldest_entries c)) = removeCount"
    using m(2) card_oldest_keys by blast
  have sub: "fst ` set (oldest_entries c) \<subseteq> set (map fst (siteStatus c))"
    unfolding keys using oldest_subset[of c] by auto
  have "length (siteStatus (limitCacheSize c))
        = card (set (map fst (siteStatus c)) - fst ` set (oldest_entries c))"
    by (simp add: limitCacheSize_filter length_filter_keys[OF m(1)] del: set_map)
  also have "\<dots> = card (set (map fst (siteStatus c))) - card (fst ` set (oldest_entries c))"
    using sub by (intro card_Diff_subset) (auto intro: finite_subset)
  also have "\<dots> = MAX_CACHE_SIZE - removeCount"
    using c1 len length_is_Map[OF m(1)] by simp
  finally show ?thesis .
qed

lemma cache_inv_limit_parts:
  assumes "cache_inv c"
  shows "is_Map (siteStatus (limitCacheSize c))" "is_Map (checkTimes (limitCacheSize c))"
    "set (map fst (siteStatus (limitCacheSize c))) = set (map fst (checkTimes (limitCacheSize c)))"
  using assms
  by (simp_all add: limitCacheSize_filter cache_inv_def is_Map_filter keys_filter_keys map_keys_def
      del: set_map)

lemma cache_inv_updateCache:
  assumes "cache_inv c"
  shows "cache_inv (updateCache c hostname status now)"
proof (cases "MAX_CACHE_SIZE \<le> length (siteStatus c)")
  case True
  let ?c1 = "limitCacheSize c"
  have upd: "updateCache c hostname status now =
      ?c1\<lparr>siteStatus := map_set (siteStatus ?c1) hostname status,
           checkTimes := map_set (checkTimes ?c1) hostname now\<rparr>"
    using True by (simp add: updateCache_def Let_def)
  have "length (siteStatus ?c1) = MAX_CACHE_SIZE - removeCount"
    using assms True by (rule limitCacheSize_full)
  then have "length (map_set (siteStatus ?c1) hostname status) \<le> MAX_CACHE_SIZE"
    using length_map_set_le[of "siteStatus ?c1" hostname status]
    by (simp add: removeCount_eq MAX_CACHE_SIZE_def)
  then show ?thesis
    unfolding upd using cache_inv_limit_parts[OF assms]
    by (simp add: cache_inv_def is_Map_map_set keys_map_set map_keys_def del: set_map)
next
  case False
  then have upd: "updateCache c hostname status now =
      c\<lparr>siteStatus := map_set (siteStatus c) hostname status,
        checkTimes := map_set (checkTimes c) hostname now\<rparr>"
    by (simp add: updateCache_def Let_def)
  have "length (map_set (siteStatus c) hostname status) \<le> MAX_CACHE_SIZE"
    using False length_map_set_le[of "siteStatus c" hostname status] by simp
  then show ?thesis
    unfolding upd using assms
    by (simp add: cache_inv_def is_Map_map_set keys_map_set map_keys_def del: set_map)
qed

lemma cache_inv_new: "cache_inv new_SiteChecker"
  by (simp add: cache_inv_def new_SiteChecker_def is_Map_def map_keys_def)

lemma cache_inv_run_updates: "cache_inv c \<Longrightarrow> cache_inv (run_updates ops c)"
proof (induction ops arbitrary: c)
  case Nil
  then show ?case by simp
next
  case (Cons op ops)
  obtain h s t where op: "op = (h, s, t)" by (cases op)
  show ?case unfolding op run_updates.simps
    by (rule Cons.IH) (rule cache_inv_updateCache[OF Cons.prems])
qed

lemma cache_inv_full_cache: "cache_inv full_cache"
proof -
  have inj: "inj_on (\<lambda>i. replicate (Suc i) CHR ''a'') A" for A :: "nat set"
    by (rule inj_onI) (simp del: replicate_Suc)
  have "distinct (map (\<lambda>i. replicate (Suc i) CHR ''a'') [0..<500])"
    by (simp add: distinct_map inj del: replicate_Suc)
  then show ?thesis
    by (simp add: cache_inv_def full_cache_def is_Map_def map_keys_def comp_def MAX_CACHE_SIZE_def
        del: replicate_Suc)
qed

lemma updateCache_when_full:
  assumes "cache_inv c" and "MAX_CACHE_SIZE \<le> length (siteStatus c)"
  shows "length (oldest_entries c) = 100"
    and "distinct (map fst (oldest_entries c))"
    and "set (map_keys (siteStatus (updateCache c hostname status now)))
          = insert hostname (set (map_keys (siteStatus c)) - fst ` set (oldest_entries c))"
    and "set (map_keys (checkTimes (updateCache c hostname status now)))
          = insert hostname (set (map_keys (checkTimes c)) - fst ` set (oldest_entries c))"
    and "length (siteStatus (updateCache c hostname status now)) \<le> 401"
proof -
  have len: "length (checkTimes c) = MAX_CACHE_SIZE"
    using assms cache_inv_lengths[OF assms(1)] by (simp add: cache_inv_def)
  then show "length (oldest_entries c) = 100"
    by (simp add: oldest_entries_def removeCount_eq MAX_CACHE_SIZE_def)
  have "distinct (take removeCount (map fst (sort_key snd (checkTimes c))))"
    using assms(1) by (intro distinct_take sorted_keys_distinct) (simp add: cache_inv_def)
  then show "distinct (map fst (oldest_entries c))"
    by (simp add: oldest_entries_def take_map)
  have upd: "updateCache c hostname status now =
      (limitCacheSize c)\<lparr>siteStatus := map_set (siteStatus (limitCacheSize c)) hostname status,
           checkTimes := map_set (checkTimes (limitCacheSize c)) hostname now\<rparr>"
    using assms(2) by (simp add: updateCache_def Let_def)
  show "set (map_keys (siteStatus (updateCache c hostname status now)))
          = insert hostname (set (map_keys (siteStatus c)) - fst ` set (oldest_entries c))"
    unfolding upd
    by (simp add: map_keys_def keys_map_set limitCacheSize_filter keys_filter_keys del: set_map)
  show "set (map_keys (checkTimes (updateCache c hostname status now)))
          = insert hostname (set (map_keys (checkTimes c)) - fst ` set (oldest_entries c))"
    unfolding upd
    by (simp add: map_keys_def keys_map_set limitCacheSize_filter keys_filter_keys del: set_map)
  have "length (siteStatus (limitCacheSize c)) = MAX_CACHE_SIZE - removeCount"
    using assms by (rule limitCacheSize_full)
  then show "length (siteStatus (updateCache c hostname status now)) \<le> 401"
    unfolding upd using length_map_set_le[of "siteStatus (limitCacheSize c)" hostname status]
    by (simp add: removeCount_eq MAX_CACHE_SIZE_def)
qed

text \<open>
  Claim C7. After every sequence of \<^verbatim>\<open>updateCache\<close> calls on a new checker the cache
  holds at most \<^verbatim>\<open>MAX_CACHE_SIZE\<close> = 500 entries and both maps hold the same hostnames.
  When \<^verbatim>\<open>updateCache\<close> finds 500 entries or more, the 100 entries with the oldest check
  times (no kept entry is older than a removed one) are removed from both maps before
  the new entry is stored, which leaves at most 401 entries.
\<close>

theorem cache_is_size_evicted:
  "length (siteStatus (run_updates ops new_SiteChecker)) \<le> MAX_CACHE_SIZE
   \<and> MAX_CACHE_SIZE = 500
   \<and> set (map_keys (siteStatus (run_updates ops new_SiteChecker)))
       = set (map_keys (checkTimes (run_updates ops new_SiteChecker)))
   \<and> cache_inv (run_updates ops new_SiteChecker)
   \<and> (cache_inv c \<and> MAX_CACHE_SIZE \<le> length (siteStatus c) \<longrightarrow>
        length (oldest_entries c) = 100
      \<and> distinct (map fst (oldest_entries c))
      \<and> set (oldest_entries c) \<subseteq> set (checkTimes c)
      \<and> (\<forall>e \<in> set (oldest_entries c). \<forall>e' \<in> set (checkTimes c) - set (oldest_entries c).
            snd e \<le> snd e')
      \<and> set (map_keys (siteStatus (updateCache c hostname status now)))
          = insert hostname (set (map_keys (siteStatus c)) - fst ` set (oldest_entries c))
      \<and> set (map_keys (checkTimes (updateCache c hostname status now)))
          = insert hostname (set (map_keys (checkTimes c)) - fst ` set (oldest_entries c))
      \<and> map_of (siteStatus (updateCache c hostname status now)) hostname = Some status
      \<and> map_of (checkTimes (updateCache c hostname status now)) hostname = Some now
      \<and> length (siteStatus (updateCache c hostname status now)) \<le> 401)"
proof -
  have inv: "cache_inv (run_updates ops new_SiteChecker)"
    using cache_inv_new by (rule cache_inv_run_updates)
  then have bound: "length (siteStatus (run_updates ops new_SiteChecker)) \<le> MAX_CACHE_SIZE"
    and same: "set (map_keys (siteStatus (run_updates ops new_SiteChecker)))
       = set (map_keys (checkTimes (run_updates ops new_SiteChecker)))"
    by (simp_all add: cache_inv_def)
  have evict: "cache_inv c \<and> MAX_CACHE_SIZE \<le> length (siteStatus c) \<longrightarrow>
        length (oldest_entries c) = 100
      \<and> distinct (map fst (oldest_entries c))
      \<and> set (oldest_entries c) \<subseteq> set (checkTimes c)
      \<and> (\<forall>e \<in> set (oldest_entries c). \<forall>e' \<in> set (checkTimes c) - set (oldest_entries c).
            snd e \<le> snd e')
      \<and> set (map_keys (siteStatus (updateCache c hostname status now)))
          = insert hostname (set (map_keys (siteStatus c)) - fst ` set (oldest_entries c))
      \<and> set (map_keys (checkTimes (updateCache c hostname status now)))
          = insert hostname (set (map_keys (checkTimes c)) - fst ` set (oldest_entries c))
      \<and> map_of (siteStatus (updateCache c hostname status now)) hostname = Some status
      \<and> map_of (checkTimes (updateCache c hostname status now)) hostname = Some now
      \<and> length (siteStatus (updateCache c hostname status now)) \<le> 401"
  proof
    assume "cache_inv c \<and> MAX_CACHE_SIZE \<le> length (siteStatus c)"
    then have a: "cache_inv c" and b: "MAX_CACHE_SIZE \<le> length (siteStatus c)"
      by simp_all
    have old: "\<forall>e \<in> set (oldest_entries c). \<forall>e' \<in> set (checkTimes c) - set (oldest_entries c).
            snd e \<le> snd e'"
      using oldest_are_oldest by blast
    note w = updateCache_when_full[OF a b]
    note l = updateCache_lookup[of c hostname status now]
    show "length (oldest_entries c) = 100
      \<and> distinct (map fst (oldest_entries c))
      \<and> set (oldest_entries c) \<subseteq> set (checkTimes c)
      \<and> (\<forall>e \<in> set (oldest_entries c). \<forall>e' \<in> set (checkTimes c) - set (oldest_entries c).
            snd e \<le> snd e')
      \<and> set (map_keys (siteStatus (updateCache c hostname status now)))
          = insert hostname (set (map_keys (siteStatus c)) - fst ` set (oldest_entries c))
      \<and> set (map_keys (checkTimes (updateCache c hostname status now)))
          = insert hostname (set (map_keys (checkTimes c)) - fst ` set (oldest_entries c))
      \<and> map_of (siteStatus (updateCache c hostname status now)) hostname = Some status
      \<and> map_of (checkTimes (updateCache c hostname status now)) hostname = Some now
      \<and> length (siteStatus (updateCache c hostname status now)) \<le> 401"
      by (intro conjI) (rule w(1) w(2) oldest_subset old w(3) w(4) l(1) l(2) w(5))+
  qed
  have "MAX_CACHE_SIZE = 500" by (simp add: MAX_CACHE_SIZE_def)
  with inv bound same evict show ?thesis
    by (intro conjI)
qed

theorem cache_is_size_evicted_witness:
  "cache_inv full_cache \<and> MAX_CACHE_SIZE \<le> length (siteStatus full_cache)
   \<and> length (oldest_entries full_cache) = 100
   \<and> length (siteStatus (updateCache full_cache ''example.com'' (JBool False) 1000)) \<le> 401
   \<and> map_of (siteStatus (updateCache full_cache ''example.com'' (JBool False) 1000)) ''example.com''
       = Some (JBool False)"
proof -
  have full: "MAX_CACHE_SIZE \<le> length (siteStatus full_cache)"
    by (simp add: full_cache_def MAX_CACHE_SIZE_def)
  note t = cache_is_size_evicted[of "[]" full_cache "''example.com''" "JBool False" 1000]
  from t have "cache_inv full_cache \<and> MAX_CACHE_SIZE \<le> length (siteStatus full_cache) \<longrightarrow>
        length (oldest_entries full_cache) = 100
      \<and> distinct (map fst (oldest_entries full_cache))
      \<and> set (oldest_entries full_cache) \<subseteq> set (checkTimes full_cache)
      \<and> (\<forall>e \<in> set (oldest_entries full_cache). \<forall>e' \<in> set (checkTimes full_cache) - set (oldest_entries full_cache).
            snd e \<le> snd e')
      \<and> set (map_keys (siteStatus (updateCache full_cache ''example.com'' (JBool False) 1000)))
          = insert ''example.com'' (set (map_keys (siteStatus full_cache)) - fst ` set (oldest_entries full_cache))
      \<and> set (map_keys (checkTimes (updateCache full_cache ''example.com'' (JBool False) 1000)))
          = insert ''example.com'' (set (map_keys (checkTimes full_cache)) - fst ` set (oldest_entries full_cache))
      \<and> map_of (siteStatus (updateCache full_cache ''example.com'' (JBool False) 1000)) ''example.com'' = Some (JBool False)
      \<and> map_of (checkTimes (updateCache full_cache ''example.com'' (JBool False) 1000)) ''example.com'' = Some 1000
      \<and> length (siteStatus (updateCache full_cache ''example.com'' (JBool False) 1000)) \<le> 401"
    by (elim conjE)
  with cache_inv_full_cache full show ?thesis
    by blast
qed

subsection \<open>Eviction inside the validity window\<close>








section \<open>Properties of the order store\<close>

subsection \<open>Lists and folds\<close>

lemma fold_push: "fold (\<lambda>x acc. acc @ [x]) xs acc = acc @ xs"
  by (induction xs arbitrary: acc) simp_all

lemma fold_push_if: "fold (\<lambda>x acc. if P x then acc @ [x] else acc) xs acc = acc @ filter P xs"
  by (induction xs arbitrary: acc) simp_all

lemma fold_push_option:
  "fold (\<lambda>k acc. case f k of Some c \<Rightarrow> acc @ [c] | None \<Rightarrow> acc) ks acc
     = acc @ concat (map (\<lambda>k. case f k of Some c \<Rightarrow> [c] | None \<Rightarrow> []) ks)"
  by (induction ks arbitrary: acc) (simp_all split: option.splits)

lemma distinct_first_occurrences: "distinct (first_occurrences xs)"
  by (induction xs) simp_all

lemma set_first_occurrences: "set (first_occurrences xs) = set xs"
  by (induction xs) auto

lemma mset_concat_by_key:
  "distinct ks \<Longrightarrow>
   mset (concat (map (\<lambda>k. filter (\<lambda>x. f x = k) xs) ks)) = mset (filter (\<lambda>x. f x \<in> set ks) xs)"
proof (induction ks)
  case Nil
  then show ?case by simp
next
  case (Cons k ks)
  have "mset (filter (\<lambda>x. f x = k) xs) + mset (filter (\<lambda>x. f x \<in> set ks) xs)
        = mset (filter (\<lambda>x. f x = k \<or> f x \<in> set ks) xs)"
    using Cons.prems by (induction xs) auto
  with Cons show ?case by simp
qed

lemma mset_split_by_keys:
  "distinct ks \<Longrightarrow>
   mset (concat (map (\<lambda>k. filter (\<lambda>x. f x = k) xs) ks) @ filter (\<lambda>x. f x \<notin> set ks) xs) = mset xs"
  by (simp add: mset_concat_by_key)

lemma insort_key_map: "insort_key f (g x) (map g ys) = map g (insort_key (\<lambda>y. f (g y)) x ys)"
  by (induction ys) simp_all

lemma sort_key_of_map: "sort_key f (map g xs) = map g (sort_key (\<lambda>y. f (g y)) xs)"
  by (induction xs) (simp_all add: insort_key_map)

lemma mset_enumeration_order: "mset (enumeration_order bs) = mset bs"
  by (simp add: enumeration_order_def)

lemma Object_values_entries:
  "Object_values (map (\<lambda>b. (node_id b, b)) bs) = enumeration_order bs"
  by (simp add: Object_values_def own_property_order_def enumeration_order_def filter_map
      comp_def sort_key_of_map)

lemma build_bookmarkMap:
  assumes "distinct (map node_id (filter has_url bs))"
    and "node_id ` set (filter has_url bs) \<inter> fst ` set m = {}"
  shows "fold (\<lambda>bookmark m. if has_url bookmark then map_set m (node_id bookmark) bookmark else m) bs m
         = m @ map (\<lambda>b. (node_id b, b)) (filter has_url bs)"
  using assms
proof (induction bs arbitrary: m)
  case Nil
  then show ?case by simp
next
  case (Cons b bs)
  show ?case
  proof (cases "has_url b")
    case True
    have fresh: "node_id b \<notin> fst ` set m"
      using Cons.prems(2) True by auto
    have d: "distinct (map node_id (filter has_url bs))"
      using Cons.prems(1) True by simp
    have "node_id ` set (filter has_url bs) \<inter> fst ` set (m @ [(node_id b, b)]) = {}"
      using Cons.prems True by auto
    from Cons.IH[OF d this] True fresh show ?thesis
      by (simp add: map_set_fresh)
  next
    case False
    with Cons show ?thesis by simp
  qed
qed

lemma entries_for_key:
  assumes "is_Map m"
  shows "map snd (filter (\<lambda>e. fst e = k) m) = (case map_of m k of Some v \<Rightarrow> [v] | None \<Rightarrow> [])"
  using assms unfolding is_Map_def
proof (induction m)
  case Nil
  then show ?case by simp
next
  case (Cons e m)
  have "fst e \<notin> fst ` set m"
    using Cons.prems by simp
  then have "fst e = k \<Longrightarrow> filter (\<lambda>e. fst e = k) m = []"
    unfolding filter_empty_conv by blast
  moreover have "fst e = k \<Longrightarrow> map_of (e # m) k = Some (snd e)"
    by (cases e) simp
  moreover have "fst e \<noteq> k \<Longrightarrow> map_of (e # m) k = map_of m k"
    by (cases e) simp
  ultimately show ?case using Cons by (cases "fst e = k") simp_all
qed

lemma concat_skip_key:
  assumes "\<And>k'. k' \<noteq> k \<Longrightarrow> g k' = h k'" and "g k = []"
  shows "concat (map g ks) = concat (map h (filter (\<lambda>y. y \<noteq> k) ks))"
  using assms by (induction ks) auto

lemma saved_loop:
  assumes "is_Map m"
  shows "fold (\<lambda>bookmarkId (cont, m).
                    case map_of m bookmarkId of
                      Some bookmark \<Rightarrow> (cont @ [bookmark], map_delete m bookmarkId)
                    | None \<Rightarrow> (cont, m)) ks (cont, m)
         = (cont @ concat (map (\<lambda>k. map snd (filter (\<lambda>e. fst e = k) m)) (first_occurrences ks)),
            filter (\<lambda>e. fst e \<notin> set ks) m)"
  using assms
proof (induction ks arbitrary: cont m)
  case Nil
  then show ?case by simp
next
  case (Cons k ks)
  let ?m' = "map_delete m k"
  have m': "is_Map ?m'"
    using Cons.prems by (simp add: map_delete_def is_Map_def distinct_map_filter)
  have skip: "concat (map (\<lambda>k'. map snd (filter (\<lambda>e. fst e = k') ?m')) (first_occurrences ks))
        = concat (map (\<lambda>k'. map snd (filter (\<lambda>e. fst e = k') m))
                    (filter (\<lambda>y. y \<noteq> k) (first_occurrences ks)))"
  proof (rule concat_skip_key)
    fix k' assume "k' \<noteq> k"
    then have "filter (\<lambda>e. fst e = k') ?m' = filter (\<lambda>e. fst e = k') m"
      unfolding map_delete_def filter_filter by (intro filter_cong) auto
    then show "map snd (filter (\<lambda>e. fst e = k') ?m') = map snd (filter (\<lambda>e. fst e = k') m)"
      by simp
  next
    show "map snd (filter (\<lambda>e. fst e = k) ?m') = []"
      by (simp add: map_delete_def filter_empty_conv)
  qed
  have rest: "filter (\<lambda>e. fst e \<notin> set ks) ?m' = filter (\<lambda>e. fst e \<notin> set (k # ks)) m"
    unfolding map_delete_def filter_filter by (intro filter_cong) auto
  show ?case
  proof (cases "map_of m k")
    case None
    then have "k \<notin> fst ` set m"
      by (simp add: map_of_eq_None_iff)
    then have same: "?m' = m"
      by (auto simp: map_delete_def filter_id_conv)
    have "map snd (filter (\<lambda>e. fst e = k) m) = []"
      using entries_for_key[OF Cons.prems, of k] None by simp
    with None Cons.IH[OF Cons.prems, of cont] skip rest same show ?thesis
      by simp
  next
    case (Some b)
    have "map snd (filter (\<lambda>e. fst e = k) m) = [b]"
      using entries_for_key[OF Cons.prems, of k] Some by simp
    with Some Cons.IH[OF m', of "cont @ [b]"] skip rest show ?thesis
      by simp
  qed
qed

subsection \<open>Rendering bookmarks in saved order\<close>

text \<open>
  Claim C1, as stated: the bookmarks are rendered in the order \<open>saved_then_live_order\<close>,
  the remaining bookmarks in their live order. With the live bookmarks 20, 5, 7 and the
  saved order [7], the code renders 7, 5, 20 (the remaining bookmarks come out of
  \<^verbatim>\<open>Object.values\<close> by ascending id), not 7, 20, 5.
\<close>

theorem renderOrderedBookmarks_live_order_counterexample:
  "renderOrderedBookmarks example_bookmarks [] [''7'']
     \<noteq> saved_then_live_order example_bookmarks [''7'']"
  by code_simp

text \<open>
  Claim C1, amended. For live bookmarks whose ids are pairwise distinct (and no id, live or
  saved, names a property of \<^verbatim>\<open>Object.prototype\<close>), \<^verbatim>\<open>renderOrderedBookmarks\<close> appends
  to the container exactly the live bookmarks that have a URL, each exactly once: first
  those whose ids appear in the saved order, in the sequence of the saved order (a saved id
  without a live bookmark is skipped, a repeated saved id renders once), then the
  remaining ones in the enumeration order of \<^verbatim>\<open>Object.values\<close>: ids that are array
  indices by ascending numeric value, then all other ids in live order.
\<close>

theorem renderOrderedBookmarks_order:
  assumes "distinct (map node_id (filter has_url bookmarks))"
    and "\<forall>k \<in> set (map node_id bookmarks) \<union> set savedOrder. k \<notin> set Object_prototype_keys"
  shows "renderOrderedBookmarks bookmarks container savedOrder
           = container
             @ concat (map (\<lambda>k. filter (\<lambda>b. node_id b = k) (filter has_url bookmarks))
                         (first_occurrences savedOrder))
             @ enumeration_order (filter (\<lambda>b. node_id b \<notin> set savedOrder) (filter has_url bookmarks))
       \<and> mset (renderOrderedBookmarks bookmarks container savedOrder)
           = mset container + mset (filter has_url bookmarks)"
proof -
  let ?live = "filter has_url bookmarks"
  let ?m = "map (\<lambda>b. (node_id b, b)) ?live"
  have build: "fold (\<lambda>bookmark m. if has_url bookmark then map_set m (node_id bookmark) bookmark else m)
                 bookmarks [] = ?m"
    using build_bookmarkMap[OF assms(1), of "[]"] by simp
  have isMap: "is_Map ?m"
    using assms(1) by (simp add: is_Map_def comp_def)
  have sel: "map snd (filter (\<lambda>e. fst e = k) ?m) = filter (\<lambda>b. node_id b = k) ?live" for k
    by (simp add: filter_map comp_def)
  have rest: "filter (\<lambda>e. fst e \<notin> set savedOrder) ?m
               = map (\<lambda>b. (node_id b, b)) (filter (\<lambda>b. node_id b \<notin> set savedOrder) ?live)"
    by (simp add: filter_map comp_def)
  have eq: "renderOrderedBookmarks bookmarks container savedOrder
           = container
             @ concat (map (\<lambda>k. filter (\<lambda>b. node_id b = k) ?live) (first_occurrences savedOrder))
             @ enumeration_order (filter (\<lambda>b. node_id b \<notin> set savedOrder) ?live)"
    unfolding renderOrderedBookmarks_def Let_def build saved_loop[OF isMap] sel rest
    by (simp add: fold_push Object_values_entries)
  let ?A = "concat (map (\<lambda>k. filter (\<lambda>b. node_id b = k) ?live) (first_occurrences savedOrder))"
  let ?R = "filter (\<lambda>b. node_id b \<notin> set savedOrder) ?live"
  have "mset (?A @ filter (\<lambda>b. node_id b \<notin> set (first_occurrences savedOrder)) ?live) = mset ?live"
    using distinct_first_occurrences by (rule mset_split_by_keys)
  then have part: "mset ?A + mset ?R = mset ?live"
    by (simp only: set_first_occurrences mset_append)
  have "mset (container @ ?A @ enumeration_order ?R) = mset container + (mset ?A + mset ?R)"
    by (simp only: mset_append mset_enumeration_order)
  then have "mset (renderOrderedBookmarks bookmarks container savedOrder)
           = mset container + mset ?live"
    by (simp only: eq part)
  with eq show ?thesis by simp
qed

theorem renderOrderedBookmarks_order_witness:
  "distinct (map node_id (filter has_url example_bookmarks))
   \<and> renderOrderedBookmarks example_bookmarks [] [''7'', ''99'', ''7'']
       = [Node ''7'' ''Gamma'' (Some ''https://gamma.example/'') None,
          Node ''5'' ''Beta'' (Some ''https://beta.example/'') None,
          Node ''20'' ''Alpha'' (Some ''https://alpha.example/'') None]"
proof -
  have d: "distinct (map node_id (filter has_url example_bookmarks))"
    by code_simp
  have p: "\<forall>k \<in> set (map node_id example_bookmarks) \<union> set [''7'', ''99'', ''7''].
             k \<notin> set Object_prototype_keys"
    by code_simp
  have v: "[] @ concat (map (\<lambda>k. filter (\<lambda>b. node_id b = k) (filter has_url example_bookmarks))
                         (first_occurrences [''7'', ''99'', ''7'']))
             @ enumeration_order (filter (\<lambda>b. node_id b \<notin> set [''7'', ''99'', ''7''])
                                    (filter has_url example_bookmarks))
       = [Node ''7'' ''Gamma'' (Some ''https://gamma.example/'') None,
          Node ''5'' ''Beta'' (Some ''https://beta.example/'') None,
          Node ''20'' ''Alpha'' (Some ''https://alpha.example/'') None]"
    by code_simp
  from renderOrderedBookmarks_order[OF d p, of "[]"] v d show ?thesis
    by simp
qed

subsection \<open>Ordering the columns\<close>

lemma find_cong_set: "(\<And>x. x \<in> set xs \<Longrightarrow> P x = Q x) \<Longrightarrow> find P xs = find Q xs"
  by (induction xs) simp_all

lemma find_by_key:
  assumes "distinct (map f xs)"
  shows "(case find (\<lambda>x. f x = k) xs of Some c \<Rightarrow> [c] | None \<Rightarrow> []) = filter (\<lambda>x. f x = k) xs"
  using assms
proof (induction xs)
  case Nil
  then show ?case by simp
next
  case (Cons x xs)
  have "f x \<notin> f ` set xs"
    using Cons.prems by simp
  then have "f x = k \<Longrightarrow> filter (\<lambda>x. f x = k) xs = []"
    unfolding filter_empty_conv by blast
  with Cons show ?case by simp
qed

lemma match_is_find_by_id:
  assumes "well_formed_columns cols"
  shows "(if k = ''uncategorized'' then find is_uncategorized cols else find (matches_id k) cols)
         = find (\<lambda>c. columnId_of c = k) cols"
proof (cases "k = ''uncategorized''")
  case True
  have "is_uncategorized c = (columnId_of c = k)" if "c \<in> set cols" for c
  proof -
    from assms that have "is_uncategorized c \<or> columnId_of c \<noteq> ''uncategorized''"
      by (simp add: well_formed_columns_def list_all_iff)
    then show ?thesis
      unfolding True by (cases c) (simp_all add: is_uncategorized_def columnId_of_def)
  qed
  then have "find is_uncategorized cols = find (\<lambda>c. columnId_of c = k) cols"
    by (rule find_cong_set)
  with True show ?thesis by simp
next
  case False
  have "matches_id k c = (columnId_of c = k)" for c
    using False by (cases c) (auto simp: matches_id_def columnId_of_def)
  then have "find (matches_id k) cols = find (\<lambda>c. columnId_of c = k) cols"
    by (intro find_cong_set)
  with False show ?thesis by simp
qed

lemma determineColumnOrder_explicit:
  assumes "well_formed_columns cols"
  shows "determineColumnOrder cols (Some saved)
         = concat (map (\<lambda>k. filter (\<lambda>c. columnId_of c = k) cols) saved)
           @ filter (\<lambda>c. columnId_of c \<notin> set saved) cols"
proof (cases "saved = []")
  case True
  then show ?thesis by (simp add: determineColumnOrder_def)
next
  case False
  have d: "distinct (map columnId_of cols)"
    using assms by (simp add: well_formed_columns_def)
  have ne: "columnId_of c \<noteq> []" if "c \<in> set cols" for c
    using assms that by (simp add: well_formed_columns_def list_all_iff)
  have first: "fold (\<lambda>columnId acc.
                   case (if columnId = ''uncategorized''
                         then find is_uncategorized cols
                         else find (matches_id columnId) cols) of
                     Some matchColumn \<Rightarrow> acc @ [matchColumn]
                   | None \<Rightarrow> acc) saved []
        = concat (map (\<lambda>k. filter (\<lambda>c. columnId_of c = k) cols) saved)"
    unfolding match_is_find_by_id[OF assms] fold_push_option
    by (simp add: find_by_key[OF d])
  have second: "fold (\<lambda>col acc.
                        if columnId_of col \<noteq> [] \<and> columnId_of col \<notin> set saved then acc @ [col]
                        else if columnId_of col = [] then acc @ [col]
                        else acc) cols acc
        = acc @ filter (\<lambda>c. columnId_of c \<notin> set saved) cols" for acc
  proof -
    have "fold (\<lambda>col acc.
                        if columnId_of col \<noteq> [] \<and> columnId_of col \<notin> set saved then acc @ [col]
                        else if columnId_of col = [] then acc @ [col]
                        else acc) cols acc
          = fold (\<lambda>col acc. if columnId_of col = [] \<or> columnId_of col \<notin> set saved
                              then acc @ [col] else acc) cols acc"
      by (intro fold_cong) auto
    also have "\<dots> = acc @ filter (\<lambda>c. columnId_of c = [] \<or> columnId_of c \<notin> set saved) cols"
      by (rule fold_push_if)
    also have "filter (\<lambda>c. columnId_of c = [] \<or> columnId_of c \<notin> set saved) cols
               = filter (\<lambda>c. columnId_of c \<notin> set saved) cols"
      using ne by (intro filter_cong) auto
    finally show ?thesis .
  qed
  show ?thesis
    using False by (simp add: determineColumnOrder_def Let_def first second)
qed

lemma example_columns_collected: "collect_columns example_roots = Some example_columns"
  by code_simp

text \<open>
  Claim C2, as stated: for every saved column order the result is a permutation of the
  live columns. With the saved order [5, 5] the folder 5 is returned twice.
\<close>

theorem determineColumnOrder_permutation_counterexample:
  "mset (determineColumnOrder example_columns (Some [''5'', ''5''])) \<noteq> mset example_columns"
proof
  assume "mset (determineColumnOrder example_columns (Some [''5'', ''5''])) = mset example_columns"
  then have "length (determineColumnOrder example_columns (Some [''5'', ''5'']))
             = length example_columns"
    by (rule mset_eq_length)
  moreover have "length (determineColumnOrder example_columns (Some [''5'', ''5''])) = 5"
    by code_simp
  moreover have "length example_columns = 4"
    by code_simp
  ultimately show False by simp
qed

text \<open>
  Claim C2, amended. For live columns with pairwise distinct, well-formed ids and a saved
  order in which no id is repeated, \<^verbatim>\<open>determineColumnOrder\<close> returns a permutation of the
  live columns: the live columns themselves when the saved order is null or empty;
  otherwise the live columns whose ids appear in the saved order, in the sequence of the
  saved order with absent ids skipped, followed by the live columns whose ids are not in
  the saved order, in live order. No live column is dropped and none appears twice.
\<close>

theorem determineColumnOrder_permutation:
  assumes "well_formed_columns columnsData" and "distinct saved"
  shows "determineColumnOrder columnsData None = columnsData
       \<and> determineColumnOrder columnsData (Some []) = columnsData
       \<and> determineColumnOrder columnsData (Some saved)
           = concat (map (\<lambda>k. filter (\<lambda>c. columnId_of c = k) columnsData) saved)
             @ filter (\<lambda>c. columnId_of c \<notin> set saved) columnsData
       \<and> mset (determineColumnOrder columnsData (Some saved)) = mset columnsData
       \<and> distinct (map columnId_of (determineColumnOrder columnsData (Some saved)))"
proof -
  have a: "determineColumnOrder columnsData None = columnsData"
    by (simp add: determineColumnOrder_def)
  have b: "determineColumnOrder columnsData (Some []) = columnsData"
    by (simp add: determineColumnOrder_def)
  note c = determineColumnOrder_explicit[OF assms(1), of saved]
  have d: "mset (determineColumnOrder columnsData (Some saved)) = mset columnsData"
    unfolding c using assms(2) by (rule mset_split_by_keys)
  have "mset (map columnId_of (determineColumnOrder columnsData (Some saved)))
        = mset (map columnId_of columnsData)"
    using d by (metis mset_map)
  then have "distinct (map columnId_of (determineColumnOrder columnsData (Some saved)))
             = distinct (map columnId_of columnsData)"
    by (rule mset_eq_imp_distinct_iff)
  then have e: "distinct (map columnId_of (determineColumnOrder columnsData (Some saved)))"
    using assms(1) by (simp add: well_formed_columns_def)
  from a b c d e show ?thesis by simp
qed

theorem determineColumnOrder_permutation_witness:
  "well_formed_columns example_columns
   \<and> distinct [''2'', ''77'', ''uncategorized'']
   \<and> determineColumnOrder example_columns (Some [''2'', ''77'', ''uncategorized''])
       = [Special (Node ''2'' ''Other bookmarks'' None (Some [])),
          Uncategorized [Node ''6'' ''News'' (Some ''https://news.example/'') None],
          Folder (Node ''5'' ''Work'' None (Some [])),
          Folder (Node ''8'' ''Home'' None (Some []))]"
proof -
  have w: "well_formed_columns example_columns"
    by code_simp
  have d: "distinct [''2'', ''77'', ''uncategorized'']"
    by simp
  have v: "concat (map (\<lambda>k. filter (\<lambda>c. columnId_of c = k) example_columns)
                     [''2'', ''77'', ''uncategorized''])
             @ filter (\<lambda>c. columnId_of c \<notin> set [''2'', ''77'', ''uncategorized'']) example_columns
       = [Special (Node ''2'' ''Other bookmarks'' None (Some [])),
          Uncategorized [Node ''6'' ''News'' (Some ''https://news.example/'') None],
          Folder (Node ''5'' ''Work'' None (Some [])),
          Folder (Node ''8'' ''Home'' None (Some []))]"
    by code_simp
  from determineColumnOrder_permutation[OF w d] v w d show ?thesis
    by simp
qed

section \<open>Properties of the bookmark check\<close>

lemma traverseBookmarks_fold:
  "traverseBookmarks bookmarks callback acc = fold callback (tree_bookmarks bookmarks) acc"
  by (induction bookmarks callback acc rule: traverseBookmarks.induct)
     (simp_all add: tree_bookmarks_def)

lemma collect_bookmark_fold:
  "map fst (fold (collect_bookmark env) bs acc) = map fst acc @ filter (url_parses env) bs"
  by (induction bs arbitrary: acc)
     (auto simp: collect_bookmark_def url_parses_def split: option.splits)

lemma bookmarksToCheck_bookmarks:
  "map fst (bookmarksToCheck env bookmarks) = filter (url_parses env) (tree_bookmarks bookmarks)"
  by (simp add: bookmarksToCheck_def traverseBookmarks_fold collect_bookmark_fold)

lemma batch_loop_step:
  assumes "i < length toCheck"
  shows "batch_loop env toCheck i run =
     batch_loop env toCheck (i + batchSize)
       \<lparr>results = fold (store_result env)
                    (completion_order env (enumerate i (take batchSize (drop i toCheck))))
                    (results run),
        checked = checked run + length (take batchSize (drop i toCheck)),
        batches = batches run @ [take batchSize (drop i toCheck)],
        events = events run
                 @ map (\<lambda>e. Started (fst e)) (enumerate i (take batchSize (drop i toCheck)))
                 @ map (\<lambda>e. Settled (fst e))
                     (completion_order env (enumerate i (take batchSize (drop i toCheck))))\<rparr>"
  using assms by (subst batch_loop.simps) (simp add: Let_def)

lemma batch_loop_done: "\<not> i < length toCheck \<Longrightarrow> batch_loop env toCheck i run = run"
  by (subst batch_loop.simps) simp

lemma take_drop_next: "take n (drop i xs) @ drop (i + n) xs = drop i xs"
proof -
  have "take n (drop i xs) @ drop n (drop i xs) = drop i xs"
    by (rule append_take_drop_id)
  then show ?thesis by (simp add: add.commute)
qed

lemma batch_loop_batches:
  "concat (batches (batch_loop env toCheck i run)) = concat (batches run) @ drop i toCheck"
proof (induction env toCheck i run rule: batch_loop.induct)
  case (1 env toCheck i run)
  show ?case
  proof (cases "i < length toCheck")
    case True
    show ?thesis
      unfolding batch_loop_step[OF True]
      by (subst "1.IH"[OF True refl refl refl]) (simp add: take_drop_next)
  next
    case False
    then show ?thesis by (simp add: batch_loop_done)
  qed
qed

lemma batch_loop_sizes:
  "list_all (\<lambda>b. 0 < length b \<and> length b \<le> batchSize) (batches run) \<Longrightarrow>
   list_all (\<lambda>b. 0 < length b \<and> length b \<le> batchSize) (batches (batch_loop env toCheck i run))"
proof (induction env toCheck i run rule: batch_loop.induct)
  case (1 env toCheck i run)
  show ?case
  proof (cases "i < length toCheck")
    case True
    show ?thesis
      unfolding batch_loop_step[OF True]
      using True "1.prems" by (intro "1.IH"[OF True refl refl refl]) (simp add: batchSize_def)
  next
    case False
    then show ?thesis using "1.prems" by (simp add: batch_loop_done)
  qed
qed

lemma batch_loop_checked:
  "checked (batch_loop env toCheck i run) = checked run + (length toCheck - i)"
proof (induction env toCheck i run rule: batch_loop.induct)
  case (1 env toCheck i run)
  show ?case
  proof (cases "i < length toCheck")
    case True
    show ?thesis
      unfolding batch_loop_step[OF True]
      by (subst "1.IH"[OF True refl refl refl]) (simp add: batchSize_def)
  next
    case False
    then show ?thesis by (simp add: batch_loop_done)
  qed
qed

lemma store_result_eq:
  "store_result env (j, bookmark, hostname) res
     = map_set res (node_id bookmark) (recorded_value (check_settles env j))"
  by (simp add: store_result_def recorded_value_def split: sum.splits)

lemma fold_store_keys:
  "set (map fst (fold (store_result env) es res))
     = set (map fst res) \<union> (\<lambda>e. node_id (fst (snd e))) ` set es"
proof (induction es arbitrary: res)
  case Nil
  then show ?case by simp
next
  case (Cons e es)
  obtain j b h where e: "e = (j, b, h)" by (cases e)
  show ?case
    by (simp add: Cons.IH e store_result_eq keys_map_set del: set_map)
qed

lemma fold_store_is_Map: "is_Map res \<Longrightarrow> is_Map (fold (store_result env) es res)"
proof (induction es arbitrary: res)
  case Nil
  then show ?case by simp
next
  case (Cons e es)
  obtain j b h where e: "e = (j, b, h)" by (cases e)
  show ?case
    using Cons.prems by (simp add: e store_result_eq Cons.IH is_Map_map_set)
qed

lemma enumerate_seconds: "(\<lambda>e. f (snd e)) ` set (enumerate n xs) = f ` set xs"
proof -
  have "f ` set xs = f ` set (map snd (enumerate n xs))"
    by simp
  also have "\<dots> = (\<lambda>e. f (snd e)) ` set (enumerate n xs)"
    by (simp only: set_map image_image)
  finally show ?thesis by (rule sym)
qed

lemma set_drop_split: "set (take n (drop i xs)) \<union> set (drop (i + n) xs) = set (drop i xs)"
  using take_drop_next[of n i xs] by (metis set_append)

lemma batch_loop_keys:
  assumes "\<forall>xs. mset (completion_order env xs) = mset xs"
  shows "set (map fst (results (batch_loop env toCheck i run)))
         = set (map fst (results run)) \<union> (\<lambda>e. node_id (fst e)) ` set (drop i toCheck)"
  using assms
proof (induction env toCheck i run rule: batch_loop.induct)
  case (1 env toCheck i run)
  show ?case
  proof (cases "i < length toCheck")
    case True
    let ?started = "enumerate i (take batchSize (drop i toCheck))"
    have "set (completion_order env ?started) = set ?started"
      using "1.prems" by (metis mset_eq_setD)
    then have k: "(\<lambda>e. node_id (fst (snd e))) ` set (completion_order env ?started)
               = (\<lambda>e. node_id (fst e)) ` set (take batchSize (drop i toCheck))"
      by (simp only: enumerate_seconds[of "\<lambda>e. node_id (fst e)"])
    have "(\<lambda>e. node_id (fst e)) ` set (take batchSize (drop i toCheck))
            \<union> (\<lambda>e. node_id (fst e)) ` set (drop (i + batchSize) toCheck)
          = (\<lambda>e. node_id (fst e)) ` set (drop i toCheck)"
      unfolding image_Un[symmetric] set_drop_split ..
    then show ?thesis
      unfolding batch_loop_step[OF True]
      by (subst "1.IH"[OF True refl refl refl "1.prems"])
         (simp add: fold_store_keys k Un_assoc del: set_map)
  next
    case False
    then show ?thesis by (simp add: batch_loop_done)
  qed
qed

lemma batch_loop_is_Map:
  "is_Map (results run) \<Longrightarrow> is_Map (results (batch_loop env toCheck i run))"
proof (induction env toCheck i run rule: batch_loop.induct)
  case (1 env toCheck i run)
  show ?case
  proof (cases "i < length toCheck")
    case True
    show ?thesis
      unfolding batch_loop_step[OF True]
      using "1.prems" by (intro "1.IH"[OF True refl refl refl]) (simp add: fold_store_is_Map)
  next
    case False
    then show ?thesis using "1.prems" by (simp add: batch_loop_done)
  qed
qed

lemma map_of_map_set_upd: "map_of (map_set m k v) = (map_of m)(k \<mapsto> v)"
  by (rule ext) (simp add: map_of_map_set)

lemma fold_store_values:
  assumes "distinct (map (\<lambda>e. node_id (fst (snd e))) es)"
  shows "map_of (fold (store_result env) es res) = map_of res ++ map_of (map (entry_result env) es)"
  using assms
proof (induction es arbitrary: res)
  case Nil
  then show ?case by simp
next
  case (Cons e es)
  obtain j b h where e: "e = (j, b, h)" by (cases e)
  let ?v = "recorded_value (check_settles env j)"
  have d: "distinct (map (\<lambda>e. node_id (fst (snd e))) es)"
    using Cons.prems by simp
  have "node_id b \<notin> fst ` set (map (entry_result env) es)"
    using Cons.prems by (force simp: e entry_result_def)
  then have fresh: "node_id b \<notin> dom (map_of (map (entry_result env) es))"
    by (simp add: dom_map_of_conv_image_fst del: set_map)
  have "fold (store_result env) (e # es) res
        = fold (store_result env) es (map_set res (node_id b) ?v)"
    by (simp add: e store_result_eq)
  then have "map_of (fold (store_result env) (e # es) res)
        = map_of (map_set res (node_id b) ?v) ++ map_of (map (entry_result env) es)"
    by (simp only: Cons.IH[OF d])
  also have "\<dots> = (map_of res)(node_id b \<mapsto> ?v) ++ map_of (map (entry_result env) es)"
    by (simp only: map_of_map_set_upd)
  also have "\<dots> = (map_of res ++ map_of (map (entry_result env) es))(node_id b \<mapsto> ?v)"
    using fresh by (rule map_add_upd_left)
  also have "\<dots> = map_of res ++ map_of (map (entry_result env) (e # es))"
    by (simp add: e entry_result_def)
  finally show ?case .
qed

lemma entry_results_permuted:
  assumes "mset es' = mset es" and "distinct (map (\<lambda>e. node_id (fst (snd e))) es)"
  shows "map_of (map (entry_result env) es') = map_of (map (entry_result env) es)"
    and "distinct (map (\<lambda>e. node_id (fst (snd e))) es')"
proof -
  have "mset (map (\<lambda>e. node_id (fst (snd e))) es') = mset (map (\<lambda>e. node_id (fst (snd e))) es)"
    using assms(1) by (metis mset_map)
  then have "distinct (map (\<lambda>e. node_id (fst (snd e))) es')
             = distinct (map (\<lambda>e. node_id (fst (snd e))) es)"
    by (rule mset_eq_imp_distinct_iff)
  with assms(2) show d': "distinct (map (\<lambda>e. node_id (fst (snd e))) es')"
    by simp
  have k: "map fst (map (entry_result env) xs) = map (\<lambda>e. node_id (fst (snd e))) xs" for xs
    by (simp add: entry_result_def)
  have "set es' = set es"
    using assms(1) by (rule mset_eq_setD)
  then have "set (map (entry_result env) es') = set (map (entry_result env) es)"
    by simp
  moreover have "distinct (map fst (map (entry_result env) es'))"
    "distinct (map fst (map (entry_result env) es))"
    using d' assms(2) by (simp_all only: k)
  ultimately show "map_of (map (entry_result env) es') = map_of (map (entry_result env) es)"
    using map_of_inject_set by blast
qed

lemma map_enumerate_seconds: "map (\<lambda>e. f (snd e)) (enumerate n xs) = map f xs"
proof -
  have "map (\<lambda>e. f (snd e)) (enumerate n xs) = map f (map snd (enumerate n xs))"
    by (simp only: map_map comp_def)
  then show ?thesis by simp
qed

lemma enumerate_batches:
  "enumerate i (drop i xs)
     = enumerate i (take n (drop i xs)) @ enumerate (i + n) (drop (i + n) xs)"
proof -
  have "enumerate i (drop i xs) = enumerate i (take n (drop i xs) @ drop (i + n) xs)"
    by (simp only: take_drop_next)
  also have "\<dots> = enumerate i (take n (drop i xs))
                   @ enumerate (i + length (take n (drop i xs))) (drop (i + n) xs)"
    by (rule enumerate_append_eq)
  also have "enumerate (i + length (take n (drop i xs))) (drop (i + n) xs)
             = enumerate (i + n) (drop (i + n) xs)"
  proof (cases "i + n \<le> length xs")
    case True
    then show ?thesis by simp
  next
    case False
    then show ?thesis by simp
  qed
  finally show ?thesis .
qed

lemma batch_loop_values:
  assumes "\<forall>xs. mset (completion_order env xs) = mset xs"
    and "distinct (map (\<lambda>e. node_id (fst e)) (drop i toCheck))"
  shows "map_of (results (batch_loop env toCheck i run))
         = map_of (results run) ++ map_of (map (entry_result env) (enumerate i (drop i toCheck)))"
  using assms
proof (induction env toCheck i run rule: batch_loop.induct)
  case (1 env toCheck i run)
  show ?case
  proof (cases "i < length toCheck")
    case True
    let ?batch = "take batchSize (drop i toCheck)"
    let ?rest = "drop (i + batchSize) toCheck"
    let ?A = "enumerate i ?batch"
    let ?B = "enumerate (i + batchSize) ?rest"
    let ?key = "\<lambda>e :: nat \<times> node \<times> string. node_id (fst (snd e))"
    have split: "drop i toCheck = ?batch @ ?rest"
      by (simp only: take_drop_next)
    have dall: "distinct (map (\<lambda>e. node_id (fst e)) (?batch @ ?rest))"
      using "1.prems"(2) by (simp only: split[symmetric])
    have keysA: "map ?key ?A = map (\<lambda>e. node_id (fst e)) ?batch"
      by (rule map_enumerate_seconds)
    have keysB: "map ?key ?B = map (\<lambda>e. node_id (fst e)) ?rest"
      by (rule map_enumerate_seconds)
    have dA: "distinct (map ?key ?A)" and dB: "distinct (map (\<lambda>e. node_id (fst e)) ?rest)"
      and disj: "set (map ?key ?A) \<inter> set (map ?key ?B) = {}"
      using dall unfolding keysA keysB by auto
    have perm: "mset (completion_order env ?A) = mset ?A"
      using "1.prems"(1) by simp
    have stored: "map_of (fold (store_result env) (completion_order env ?A) (results run))
                  = map_of (results run) ++ map_of (map (entry_result env) ?A)"
      using fold_store_values[OF entry_results_permuted(2)[OF perm dA]]
        entry_results_permuted(1)[OF perm dA] by simp
    have keys: "fst ` set (map (entry_result env) xs) = set (map ?key xs)" for xs
      by (simp add: entry_result_def image_image)
    have "dom (map_of (map (entry_result env) ?A)) \<inter> dom (map_of (map (entry_result env) ?B)) = {}"
      using disj by (simp only: dom_map_of_conv_image_fst keys)
    then have comm: "map_of (map (entry_result env) ?A) ++ map_of (map (entry_result env) ?B)
                     = map_of (map (entry_result env) ?B) ++ map_of (map (entry_result env) ?A)"
      by (rule map_add_comm)
    have "map_of (results (batch_loop env toCheck i run))
          = (map_of (results run) ++ map_of (map (entry_result env) ?A))
            ++ map_of (map (entry_result env) ?B)"
      unfolding batch_loop_step[OF True]
      by (subst "1.IH"[OF True refl refl refl "1.prems"(1) dB]) (simp add: stored)
    also have "\<dots> = map_of (results run)
                     ++ (map_of (map (entry_result env) ?A) ++ map_of (map (entry_result env) ?B))"
      by (rule map_add_assoc[symmetric])
    also have "\<dots> = map_of (results run)
                     ++ (map_of (map (entry_result env) ?B) ++ map_of (map (entry_result env) ?A))"
      by (simp only: comm)
    also have "\<dots> = map_of (results run) ++ map_of (map (entry_result env) (?A @ ?B))"
      by (simp only: map_append map_of_append)
    also have "?A @ ?B = enumerate i (drop i toCheck)"
      by (rule enumerate_batches[symmetric])
    finally show ?thesis .
  next
    case False
    then show ?thesis by (simp add: batch_loop_done)
  qed
qed

lemma sorted_constant: "\<forall>x\<in>set xs. x = c \<Longrightarrow> sorted xs"
  by (induction xs) auto

lemma batch_number:
  assumes "batchSize dvd i" and "i \<le> j" and "j < i + batchSize"
  shows "j div batchSize = i div batchSize"
proof -
  from assms(1) obtain q where q: "i = batchSize * q" ..
  have "batchSize * q \<le> j" "j < batchSize * Suc q"
    using assms(2,3) by (simp_all add: q)
  then have "j div batchSize = q"
    by (rule div_nat_eqI)
  moreover have "i div batchSize = q"
    unfolding q by (simp add: batchSize_def)
  ultimately show ?thesis by simp
qed

lemma new_events_batch:
  assumes "batchSize dvd i"
    and "set finished = set (enumerate i (take batchSize (drop i toCheck)))"
    and "e \<in> set (map (\<lambda>e. Started (fst e)) (enumerate i (take batchSize (drop i toCheck)))
                 @ map (\<lambda>e. Settled (fst e)) finished)"
  shows "batch_of e = i div batchSize"
proof -
  let ?started = "enumerate i (take batchSize (drop i toCheck))"
  from assms(2,3) obtain j where j: "j \<in> fst ` set ?started" and e: "e = Started j \<or> e = Settled j"
    by auto
  have "fst ` set ?started = set (map fst ?started)"
    by (simp only: set_map)
  also have "\<dots> = {i..<i + length (take batchSize (drop i toCheck))}"
    by (simp only: map_fst_enumerate set_upt)
  finally have "i \<le> j" "j < i + batchSize"
    using j by auto
  then have "j div batchSize = i div batchSize"
    using assms(1) batch_number by blast
  with e show ?thesis
    by (auto simp: batch_of_def)
qed

lemma batch_loop_events_sorted:
  assumes "\<forall>xs. mset (completion_order env xs) = mset xs"
    and "batchSize dvd i"
    and "sorted (map batch_of (events run))"
    and "\<forall>e\<in>set (events run). batch_of e < i div batchSize"
  shows "sorted (map batch_of (events (batch_loop env toCheck i run)))"
  using assms
proof (induction env toCheck i run rule: batch_loop.induct)
  case (1 env toCheck i run)
  show ?case
  proof (cases "i < length toCheck")
    case True
    let ?started = "enumerate i (take batchSize (drop i toCheck))"
    let ?new = "map (\<lambda>e. Started (fst e)) ?started
                @ map (\<lambda>e. Settled (fst e)) (completion_order env ?started)"
    have same: "set (completion_order env ?started) = set ?started"
      using "1.prems"(1) by (metis mset_eq_setD)
    have new: "batch_of e = i div batchSize" if "e \<in> set ?new" for e
      using "1.prems"(2) same that by (rule new_events_batch)
    have "sorted (map batch_of ?new)"
      by (rule sorted_constant[of _ "i div batchSize"]) (use new in auto)
    moreover have "\<forall>x\<in>set (map batch_of (events run)). \<forall>y\<in>set (map batch_of ?new). x \<le> y"
      using "1.prems"(4) new by fastforce
    ultimately have s: "sorted (map batch_of (events run @ ?new))"
      using "1.prems"(3) by (simp only: map_append sorted_append) simp
    have next_i: "(i + batchSize) div batchSize = Suc (i div batchSize)"
      by (simp add: batchSize_def)
    have b: "\<forall>e\<in>set (events run @ ?new). batch_of e < (i + batchSize) div batchSize"
      unfolding next_i using "1.prems"(4) new by (auto simp: less_Suc_eq simp del: set_map map_append)
    have dv: "batchSize dvd i + batchSize"
      using "1.prems"(2) by simp
    show ?thesis
      unfolding batch_loop_step[OF True]
      using s b by (intro "1.IH"[OF True refl refl refl "1.prems"(1) dv]) simp_all
  next
    case False
    then show ?thesis using "1.prems"(3) by (simp add: batch_loop_done)
  qed
qed

lemma batch_loop_events_set:
  assumes "\<forall>xs. mset (completion_order env xs) = mset xs"
  shows "set (events (batch_loop env toCheck i run))
         = set (events run) \<union> Started ` {i..<length toCheck} \<union> Settled ` {i..<length toCheck}"
  using assms
proof (induction env toCheck i run rule: batch_loop.induct)
  case (1 env toCheck i run)
  show ?case
  proof (cases "i < length toCheck")
    case True
    let ?started = "enumerate i (take batchSize (drop i toCheck))"
    have same: "set (completion_order env ?started) = set ?started"
      using "1.prems"(1) by (metis mset_eq_setD)
    have "fst ` set ?started = set (map fst ?started)"
      by (simp only: set_map)
    also have "\<dots> = {i..<i + length (take batchSize (drop i toCheck))}"
      by (simp only: map_fst_enumerate set_upt)
    also have "\<dots> = {i..<min (i + batchSize) (length toCheck)}"
      using True by (simp add: min_def) auto
    finally have idx: "fst ` set ?started = {i..<min (i + batchSize) (length toCheck)}" .
    have range: "{i..<min (i + batchSize) (length toCheck)} \<union> {i + batchSize..<length toCheck}
                 = {i..<length toCheck}"
      by auto
    have st: "set (map (\<lambda>e. Started (fst e)) ?started) = Started ` {i..<min (i + batchSize) (length toCheck)}"
      unfolding idx[symmetric] by (simp add: image_image)
    have se: "set (map (\<lambda>e. Settled (fst e)) (completion_order env ?started))
              = Settled ` {i..<min (i + batchSize) (length toCheck)}"
      unfolding idx[symmetric] by (simp add: image_image same)
    have "set (events (batch_loop env toCheck i run))
          = set (events run) \<union> Started ` {i..<min (i + batchSize) (length toCheck)}
            \<union> Settled ` {i..<min (i + batchSize) (length toCheck)}
            \<union> Started ` {i + batchSize..<length toCheck} \<union> Settled ` {i + batchSize..<length toCheck}"
      unfolding batch_loop_step[OF True]
      by (subst "1.IH"[OF True refl refl refl "1.prems"])
         (simp only: check_run.simps set_append st se Un_assoc)
    also have "\<dots> = set (events run)
           \<union> Started ` ({i..<min (i + batchSize) (length toCheck)} \<union> {i + batchSize..<length toCheck})
           \<union> Settled ` ({i..<min (i + batchSize) (length toCheck)} \<union> {i + batchSize..<length toCheck})"
      by (simp only: image_Un) blast
    finally show ?thesis
      by (simp only: range)
  next
    case False
    then show ?thesis by (simp add: batch_loop_done)
  qed
qed

text \<open>
  Claim C9. \<^verbatim>\<open>checkAllBookmarks\<close> collects exactly the bookmarks of the tree whose URL
  parses (the others are skipped) and processes them in consecutive batches of at most 10
  entries: the batches, concatenated, are the collected list. In the trace of checks the
  batch numbers never decrease, so every check of a batch has settled before a check of the
  next batch starts, and every collected entry is started and settled. Afterwards the
  results map has unique keys, its keys are the ids of the bookmarks whose URL parses, and
  (ids being pairwise distinct) each holds the value its check resolved to, or
  \<^verbatim>\<open>false\<close> when the check threw. The callbacks of a batch may finish in any order.
\<close>

theorem checkAllBookmarks_batched:
  assumes "\<forall>xs. mset (completion_order env xs) = mset xs"
  shows "map fst (bookmarksToCheck env bookmarks)
           = filter (url_parses env) (tree_bookmarks bookmarks)
       \<and> concat (batches (checkAllBookmarks env bookmarks)) = bookmarksToCheck env bookmarks
       \<and> list_all (\<lambda>b. 0 < length b \<and> length b \<le> 10) (batches (checkAllBookmarks env bookmarks))
       \<and> checked (checkAllBookmarks env bookmarks) = length (bookmarksToCheck env bookmarks)
       \<and> sorted (map batch_of (events (checkAllBookmarks env bookmarks)))
       \<and> set (events (checkAllBookmarks env bookmarks))
           = Started ` {0..<length (bookmarksToCheck env bookmarks)}
             \<union> Settled ` {0..<length (bookmarksToCheck env bookmarks)}
       \<and> is_Map (results (checkAllBookmarks env bookmarks))
       \<and> set (map_keys (results (checkAllBookmarks env bookmarks)))
           = node_id ` set (filter (url_parses env) (tree_bookmarks bookmarks))
       \<and> (distinct (map node_id (filter (url_parses env) (tree_bookmarks bookmarks)))
            \<longrightarrow> map_of (results (checkAllBookmarks env bookmarks))
                  = map_of (expected_results env (bookmarksToCheck env bookmarks)))"
proof -
  let ?tc = "bookmarksToCheck env bookmarks"
  let ?init = "\<lparr>results = [], checked = 0, batches = [], events = []\<rparr>"
  have run: "checkAllBookmarks env bookmarks = batch_loop env ?tc 0 ?init"
    by (simp add: checkAllBookmarks_def)
  have c1: "map fst ?tc = filter (url_parses env) (tree_bookmarks bookmarks)"
    by (rule bookmarksToCheck_bookmarks)
  have c2: "concat (batches (checkAllBookmarks env bookmarks)) = ?tc"
    unfolding run batch_loop_batches by simp
  have "list_all (\<lambda>b. 0 < length b \<and> length b \<le> batchSize) (batches (batch_loop env ?tc 0 ?init))"
    by (rule batch_loop_sizes) simp
  then have c3: "list_all (\<lambda>b. 0 < length b \<and> length b \<le> 10) (batches (checkAllBookmarks env bookmarks))"
    unfolding run by (simp add: batchSize_def)
  have c4: "checked (checkAllBookmarks env bookmarks) = length ?tc"
    unfolding run batch_loop_checked by simp
  have c5: "sorted (map batch_of (events (checkAllBookmarks env bookmarks)))"
    unfolding run by (rule batch_loop_events_sorted[OF assms]) simp_all
  have c6: "set (events (checkAllBookmarks env bookmarks))
           = Started ` {0..<length ?tc} \<union> Settled ` {0..<length ?tc}"
    unfolding run batch_loop_events_set[OF assms] by simp
  have c7: "is_Map (results (checkAllBookmarks env bookmarks))"
    unfolding run by (rule batch_loop_is_Map) (simp add: is_Map_def)
  have "set (map_keys (results (checkAllBookmarks env bookmarks))) = node_id ` set (map fst ?tc)"
    unfolding run map_keys_def batch_loop_keys[OF assms] by (simp add: image_image)
  then have c8: "set (map_keys (results (checkAllBookmarks env bookmarks)))
           = node_id ` set (filter (url_parses env) (tree_bookmarks bookmarks))"
    by (simp only: c1)
  have c9: "map_of (results (checkAllBookmarks env bookmarks)) = map_of (expected_results env ?tc)"
    if d: "distinct (map node_id (filter (url_parses env) (tree_bookmarks bookmarks)))"
  proof -
    have "map (\<lambda>e. node_id (fst e)) ?tc = map node_id (map fst ?tc)"
      by simp
    with d have "distinct (map (\<lambda>e. node_id (fst e)) (drop 0 ?tc))"
      by (simp only: c1 drop_0)
    from batch_loop_values[OF assms this, of ?init] show ?thesis
      unfolding run by (simp add: expected_results_def)
  qed
  from c1 c2 c3 c4 c5 c6 c7 c8 c9 show ?thesis
    by (intro conjI impI)
qed

theorem checkAllBookmarks_batched_witness:
  "concat (batches (checkAllBookmarks example_env example_tree))
     = bookmarksToCheck example_env example_tree
   \<and> length (bookmarksToCheck example_env example_tree) = 12
   \<and> map length (batches (checkAllBookmarks example_env example_tree)) = [10, 2]
   \<and> map_of (results (checkAllBookmarks example_env example_tree)) ''12'' = Some (JBool True)
   \<and> map_of (results (checkAllBookmarks example_env example_tree)) ''13'' = Some (JBool False)
   \<and> map_of (results (checkAllBookmarks example_env example_tree)) ''30'' = None"
proof -
  have perm: "\<forall>xs. mset (completion_order example_env xs) = mset xs"
    by (simp add: example_env_def)
  have d: "distinct (map node_id (filter (url_parses example_env) (tree_bookmarks example_tree)))"
    by code_simp
  have n: "length (bookmarksToCheck example_env example_tree) = 12"
    by code_simp
  have b: "map length (batches (checkAllBookmarks example_env example_tree)) = [10, 2]"
    by code_simp
  have v: "map_of (expected_results example_env (bookmarksToCheck example_env example_tree)) ''12''
             = Some (JBool True)"
    "map_of (expected_results example_env (bookmarksToCheck example_env example_tree)) ''13''
             = Some (JBool False)"
    "map_of (expected_results example_env (bookmarksToCheck example_env example_tree)) ''30'' = None"
    by code_simp+
  from checkAllBookmarks_batched[OF perm, of example_tree] d
  have "concat (batches (checkAllBookmarks example_env example_tree))
          = bookmarksToCheck example_env example_tree"
    and "map_of (results (checkAllBookmarks example_env example_tree))
          = map_of (expected_results example_env (bookmarksToCheck example_env example_tree))"
    by blast+
  with n b v show ?thesis
    by simp
qed

section \<open>Properties of the two local-address tests\<close>

lemma lit_prefix: "lit p k s \<Longrightarrow> prefix p s"
  by (simp add: lit_def)

lemma lit_rest: "lit p k s \<Longrightarrow> \<exists>r. s = p @ r \<and> k r"
  by (auto simp: lit_def prefix_def)

lemma ends_with_digit_append: "ends_with_digit r \<Longrightarrow> ends_with_digit (p @ r)"
  by (simp add: ends_with_digit_def)

lemma ends_with_digit_Cons: "ends_with_digit r \<Longrightarrow> ends_with_digit (c # r)"
  by (simp add: ends_with_digit_def)

lemma lit_ends_digit:
  assumes "\<And>r. k r \<Longrightarrow> ends_with_digit r" and "lit p k s"
  shows "ends_with_digit s"
proof -
  from assms(2) obtain r where "s = p @ r" "k r" using lit_rest by blast
  with assms(1) show ?thesis by (simp add: ends_with_digit_append)
qed

lemma digits1_ends_digit:
  assumes "\<And>r. k r \<Longrightarrow> r = [] \<or> ends_with_digit r"
  shows "digits1 k s \<Longrightarrow> ends_with_digit s"
proof (induction s)
  case Nil
  then show ?case by simp
next
  case (Cons c s)
  then have d: "is_digit c" and rest: "digits1 k s \<or> k s" by simp_all
  from rest show ?case
  proof
    assume "digits1 k s"
    then show ?thesis using Cons.IH by (simp add: ends_with_digit_Cons)
  next
    assume "k s"
    then have "s = [] \<or> ends_with_digit s" by (rule assms)
    then show ?thesis using d by (auto simp: ends_with_digit_def)
  qed
qed

lemma digits1_eos_ends_digit: "digits1 eos s \<Longrightarrow> ends_with_digit s"
  by (rule digits1_ends_digit[of eos]) (simp add: eos_def)

lemma dotted_tail1: "lit ''.'' (digits1 eos) s \<Longrightarrow> ends_with_digit s"
  by (rule lit_ends_digit[of "digits1 eos"]) (rule digits1_eos_ends_digit)

lemma dotted_tail2: "digits1 (lit ''.'' (digits1 eos)) s \<Longrightarrow> ends_with_digit s"
  by (rule digits1_ends_digit[of "lit ''.'' (digits1 eos)"]) (simp add: dotted_tail1)

lemma dotted_tail3: "lit ''.'' (digits1 (lit ''.'' (digits1 eos))) s \<Longrightarrow> ends_with_digit s"
  by (rule lit_ends_digit[of "digits1 (lit ''.'' (digits1 eos))"]) (rule dotted_tail2)

lemma dotted_tail4: "digits1 (lit ''.'' (digits1 (lit ''.'' (digits1 eos)))) s \<Longrightarrow> ends_with_digit s"
  by (rule digits1_ends_digit[of "lit ''.'' (digits1 (lit ''.'' (digits1 eos)))"])
     (simp add: dotted_tail3)

lemma not_dot_local: "ends_with_digit s \<Longrightarrow> \<not> suffix ''.local'' s"
proof
  assume e: "ends_with_digit s" and "suffix ''.local'' s"
  then obtain p where "s = p @ ''.local''" by (auto simp: suffix_def)
  then have "last s = CHR ''l''" by simp
  with e show False by (simp add: ends_with_digit_def is_digit_def)
qed

lemma loopback_case:
  assumes "lit ''127.'' (digits1 (lit ''.'' (digits1 (lit ''.'' (digits1 eos))))) h"
  shows "isLocalNetwork h \<longleftrightarrow> h = ''127.0.0.1''"
proof -
  from assms obtain r where h: "h = ''127.'' @ r"
    and r: "digits1 (lit ''.'' (digits1 (lit ''.'' (digits1 eos)))) r"
    using lit_rest by blast
  have "ends_with_digit h"
    unfolding h using r by (intro ends_with_digit_append dotted_tail4)
  then have "\<not> suffix ''.local'' h" by (rule not_dot_local)
  then show ?thesis
    unfolding isLocalNetwork_def startsWith_def endsWith_def by (simp add: h)
qed

lemma white_space_no_digit:
  "list_all (\<lambda>w. w \<noteq> [] \<and> \<not> is_digit (hd w)) StrWhiteSpaceChar"
  by code_simp

lemma no_ws_before_digit: "is_digit c \<Longrightarrow> ws_len (c # s) = 0"
proof -
  assume d: "is_digit c"
  have "\<not> prefix w (c # s)" if "w \<in> set StrWhiteSpaceChar" for w
  proof
    assume p: "prefix w (c # s)"
    from that white_space_no_digit have "w \<noteq> []" "\<not> is_digit (hd w)"
      by (simp_all add: list_all_iff)
    with p d show False
      by (cases w) simp_all
  qed
  then have "filter (\<lambda>w. prefix w (c # s)) StrWhiteSpaceChar = []"
    by (simp add: filter_empty_conv)
  then show ?thesis
    by (simp add: ws_len_def)
qed

lemma parseInt10_two_digits:
  assumes "is_digit a" "is_digit b"
  shows "parseInt10 [a, b] = Some (10 * digit_val a + digit_val b)"
proof -
  have w: "ws_len [a, b] = 0"
    using assms(1) by (rule no_ws_before_digit)
  have t: "trimStart [a, b] = [a, b]"
    by (subst trimStart.simps) (simp add: w)
  have "a \<noteq> CHR ''-''" "a \<noteq> CHR ''+''"
    using assms(1) by (auto simp: is_digit_def)
  then show ?thesis
    using assms by (simp add: parseInt10_def t startsWith_def decimal_def Let_def)
qed

lemma digit_not_dot: "is_digit c \<Longrightarrow> c \<noteq> CHR ''.''"
  by (auto simp: is_digit_def)

lemma private_172_parts:
  assumes "is_digit a" "is_digit b"
  shows "split_on CHR ''.'' (''172.'' @ a # b # CHR ''.'' # r) = ''172'' # [a, b] # split_on CHR ''.'' r"
  using assms by (simp add: digit_not_dot)

lemma private_172_local:
  assumes "is_digit a" "is_digit b" "16 \<le> 10 * digit_val a + digit_val b"
    "10 * digit_val a + digit_val b \<le> 31"
  shows "isLocalNetwork (''172.'' @ a # b # CHR ''.'' # r)"
proof -
  have "startsWith (''172.'' @ a # b # CHR ''.'' # r) ''172.''"
    by (simp add: startsWith_def)
  moreover have "parseInt10 (split_on CHR ''.'' (''172.'' @ a # b # CHR ''.'' # r) ! 1)
      = Some (10 * digit_val a + digit_val b)"
    unfolding private_172_parts[OF assms(1,2)] using assms(1,2) by (simp add: parseInt10_two_digits)
  moreover have "2 \<le> length (split_on CHR ''.'' (''172.'' @ a # b # CHR ''.'' # r))"
    unfolding private_172_parts[OF assms(1,2)] by simp
  ultimately show ?thesis
    unfolding isLocalNetwork_def Let_def using assms(3,4) by simp
qed

lemma private_172_case:
  assumes "lit ''172.''
        (alt3 (\<lambda>k. lit ''1'' (char_range CHR ''6'' CHR ''9'' k))
              (\<lambda>k. lit ''2'' (digit k))
              (\<lambda>k. lit ''3'' (char_range CHR ''0'' CHR ''1'' k))
           (lit ''.'' (digits1 (lit ''.'' (digits1 eos))))) h"
  shows "isLocalNetwork h"
proof -
  let ?k = "lit ''.'' (digits1 (lit ''.'' (digits1 eos)))"
  from assms obtain r where h: "h = ''172.'' @ r"
    and r: "lit ''1'' (char_range CHR ''6'' CHR ''9'' ?k) r \<or> lit ''2'' (digit ?k) r
            \<or> lit ''3'' (char_range CHR ''0'' CHR ''1'' ?k) r"
    using lit_rest[OF assms] by (auto simp: alt3_def)
  from r obtain a b r' where shape: "r = a # b # CHR ''.'' # r'"
    and a: "is_digit a" and b: "is_digit b"
    and lo: "16 \<le> 10 * digit_val a + digit_val b" and hi: "10 * digit_val a + digit_val b \<le> 31"
  proof (elim disjE)
    assume "lit ''1'' (char_range CHR ''6'' CHR ''9'' ?k) r"
    then obtain b t where "r = CHR ''1'' # b # t" "54 \<le> (of_char b :: nat)" "(of_char b :: nat) \<le> 57" "?k t"
      by (auto simp: lit_def char_range_def prefix_def split: list.splits)
    moreover from \<open>?k t\<close> obtain r' where "t = CHR ''.'' # r'"
      by (auto simp: lit_def prefix_def)
    ultimately show thesis
      by (intro that[of "CHR ''1''" b r']) (auto simp: is_digit_def digit_val_def)
  next
    assume "lit ''2'' (digit ?k) r"
    then obtain b t where "r = CHR ''2'' # b # t" "is_digit b" "?k t"
      by (auto simp: lit_def digit_def prefix_def split: list.splits)
    moreover from \<open>?k t\<close> obtain r' where "t = CHR ''.'' # r'"
      by (auto simp: lit_def prefix_def)
    ultimately show thesis
      by (intro that[of "CHR ''2''" b r']) (auto simp: is_digit_def digit_val_def)
  next
    assume "lit ''3'' (char_range CHR ''0'' CHR ''1'' ?k) r"
    then obtain b t where "r = CHR ''3'' # b # t" "48 \<le> (of_char b :: nat)" "(of_char b :: nat) \<le> 49" "?k t"
      by (auto simp: lit_def char_range_def prefix_def split: list.splits)
    moreover from \<open>?k t\<close> obtain r' where "t = CHR ''.'' # r'"
      by (auto simp: lit_def prefix_def)
    ultimately show thesis
      by (intro that[of "CHR ''3''" b r']) (auto simp: is_digit_def digit_val_def)
  qed
  show ?thesis
    unfolding h shape using a b lo hi by (rule private_172_local)
qed

lemma regex_accepted_verdict:
  assumes "isLocalNetwork_regex h"
  shows "isLocalNetwork h \<longleftrightarrow> (startsWith h ''127.'' \<longrightarrow> h = ''127.0.0.1'')"
proof -
  from assms consider
      (localhost) "lit ''localhost'' eos h"
    | (loopback) "lit ''127.'' (digits1 (lit ''.'' (digits1 (lit ''.'' (digits1 eos))))) h"
    | (c192) "lit ''192.168.'' (digits1 (lit ''.'' (digits1 eos))) h"
    | (c10) "lit ''10.'' (digits1 (lit ''.'' (digits1 (lit ''.'' (digits1 eos))))) h"
    | (c172) "lit ''172.''
        (alt3 (\<lambda>k. lit ''1'' (char_range CHR ''6'' CHR ''9'' k))
              (\<lambda>k. lit ''2'' (digit k))
              (\<lambda>k. lit ''3'' (char_range CHR ''0'' CHR ''1'' k))
           (lit ''.'' (digits1 (lit ''.'' (digits1 eos))))) h"
    by (auto simp: isLocalNetwork_regex_def localPatterns_def)
  then show ?thesis
  proof cases
    case localhost
    then have "h = ''localhost''"
      by (auto simp: lit_def eos_def prefix_def)
    then show ?thesis
      by (simp add: isLocalNetwork_def startsWith_def)
  next
    case loopback
    then have "startsWith h ''127.''"
      unfolding startsWith_def by (rule lit_prefix)
    with loopback_case[OF loopback] show ?thesis by simp
  next
    case c192
    then obtain r where "h = ''192.168.'' @ r" using lit_rest by blast
    then show ?thesis
      by (simp add: isLocalNetwork_def startsWith_def)
  next
    case c10
    then obtain r where "h = ''10.'' @ r" using lit_rest by blast
    then show ?thesis
      by (simp add: isLocalNetwork_def startsWith_def)
  next
    case c172
    then obtain r where "h = ''172.'' @ r" using lit_rest by blast
    then have "\<not> startsWith h ''127.''"
      by (simp add: startsWith_def)
    with private_172_case[OF c172] show ?thesis by simp
  qed
qed

lemma prefix_only_examples:
  "isLocalNetwork ''printer.local'' \<and> \<not> isLocalNetwork_regex ''printer.local''"
  "isLocalNetwork ''10.example.com'' \<and> \<not> isLocalNetwork_regex ''10.example.com''"
  "isLocalNetwork ''192.168.evil.example'' \<and> \<not> isLocalNetwork_regex ''192.168.evil.example''"
  "isLocalNetwork ''172.20.evil.example'' \<and> \<not> isLocalNetwork_regex ''172.20.evil.example''"
  "isLocalNetwork ''172.16'' \<and> \<not> isLocalNetwork_regex ''172.16''"
  "isLocalNetwork ''172.016.0.1'' \<and> \<not> isLocalNetwork_regex ''172.016.0.1''"
  by code_simp+

lemma regex_only_example:
  "isLocalNetwork_regex ''127.0.0.2'' \<and> \<not> isLocalNetwork ''127.0.0.2''"
  by code_simp

text \<open>
  Claim C10, as stated: the two \<^verbatim>\<open>isLocalNetwork\<close> implementations give the same
  verdict on every hostname. They differ on \<^verbatim>\<open>printer.local\<close>: the version of
  modules/siteChecker.js accepts every name ending in \<^verbatim>\<open>.local\<close>, the regular
  expressions of js/siteChecker.js accept none.
\<close>

theorem isLocalNetwork_versions_counterexample:
  "isLocalNetwork ''printer.local'' \<noteq> isLocalNetwork_regex ''printer.local''"
  by code_simp

text \<open>
  Claim C10, amended. The two implementations are not equivalent. On every hostname that
  the regular-expression version accepts, the prefix/suffix version gives the same verdict
  unless the hostname begins with \<^verbatim>\<open>127.\<close> and is not \<^verbatim>\<open>127.0.0.1\<close>, in which case
  the prefix/suffix version rejects it (\<^verbatim>\<open>127.0.0.2\<close> is such a hostname). The
  converse inclusion does not hold: \<^verbatim>\<open>printer.local\<close>, \<^verbatim>\<open>10.example.com\<close>,
  \<^verbatim>\<open>192.168.evil.example\<close>, \<^verbatim>\<open>172.20.evil.example\<close>, \<^verbatim>\<open>172.16\<close> and
  \<^verbatim>\<open>172.016.0.1\<close> are accepted by the prefix/suffix version and rejected by the
  regular-expression version.
\<close>

theorem isLocalNetwork_versions_related:
  "(isLocalNetwork_regex h \<longrightarrow>
      (isLocalNetwork h \<longleftrightarrow> (startsWith h ''127.'' \<longrightarrow> h = ''127.0.0.1'')))
   \<and> (isLocalNetwork_regex ''127.0.0.2'' \<and> \<not> isLocalNetwork ''127.0.0.2'')
   \<and> (isLocalNetwork ''printer.local'' \<and> \<not> isLocalNetwork_regex ''printer.local'')
   \<and> (isLocalNetwork ''10.example.com'' \<and> \<not> isLocalNetwork_regex ''10.example.com'')
   \<and> (isLocalNetwork ''192.168.evil.example'' \<and> \<not> isLocalNetwork_regex ''192.168.evil.example'')
   \<and> (isLocalNetwork ''172.20.evil.example'' \<and> \<not> isLocalNetwork_regex ''172.20.evil.example'')
   \<and> (isLocalNetwork ''172.16'' \<and> \<not> isLocalNetwork_regex ''172.16'')
   \<and> (isLocalNetwork ''172.016.0.1'' \<and> \<not> isLocalNetwork_regex ''172.016.0.1'')"
proof -
  have "isLocalNetwork_regex h \<longrightarrow>
      (isLocalNetwork h \<longleftrightarrow> (startsWith h ''127.'' \<longrightarrow> h = ''127.0.0.1''))"
    using regex_accepted_verdict by blast
  with regex_only_example prefix_only_examples show ?thesis
    by blast
qed

theorem isLocalNetwork_versions_related_witness:
  "isLocalNetwork_regex ''172.16.0.1'' \<and> isLocalNetwork ''172.16.0.1''
   \<and> isLocalNetwork_regex ''127.0.0.1'' \<and> isLocalNetwork ''127.0.0.1''"
proof -
  have a: "isLocalNetwork_regex ''172.16.0.1''"
    by code_simp
  have b: "isLocalNetwork_regex ''127.0.0.1''"
    by code_simp
  from isLocalNetwork_versions_related[of "''172.16.0.1''"]
  have "isLocalNetwork_regex ''172.16.0.1'' \<longrightarrow>
      (isLocalNetwork ''172.16.0.1'' \<longleftrightarrow> (startsWith ''172.16.0.1'' ''127.'' \<longrightarrow> ''172.16.0.1'' = ''127.0.0.1''))"
    by (rule conjunct1)
  with a have c: "isLocalNetwork ''172.16.0.1''"
    by (simp add: startsWith_def)
  from isLocalNetwork_versions_related[of "''127.0.0.1''"]
  have "isLocalNetwork_regex ''127.0.0.1'' \<longrightarrow>
      (isLocalNetwork ''127.0.0.1'' \<longleftrightarrow> (startsWith ''127.0.0.1'' ''127.'' \<longrightarrow> ''127.0.0.1'' = ''127.0.0.1''))"
    by (rule conjunct1)
  with b have d: "isLocalNetwork ''127.0.0.1''"
    by simp
  from a b c d show ?thesis by simp
qed

end
